theory Spec2Isabelle
  imports Main "HOL-Library.AList"
begin

section \<open>Gateway: watermark filter (src/core/gateway.ts)\<close>

text \<open>
  \<^verbatim>\<open>const chatWatermarks = new Map<string, number>();\<close>
  Timestamps are the platform's integral create-time values, modelled as \<open>int\<close>.
\<close>

type_synonym watermarks = "string \<rightharpoonup> int"

text \<open>\<^verbatim>\<open>chatWatermarks.get(chatId) ?? 0\<close>\<close>

definition getWatermark :: "watermarks \<Rightarrow> string \<Rightarrow> int" where
  "getWatermark chatWatermarks chatId =
     (case chatWatermarks chatId of None \<Rightarrow> 0 | Some w \<Rightarrow> w)"

definition isStaleMessage :: "watermarks \<Rightarrow> string \<Rightarrow> int \<Rightarrow> bool" where
  "isStaleMessage chatWatermarks chatId createTime =
     (let watermark = getWatermark chatWatermarks chatId in createTime \<le> watermark)"

definition updateWatermark :: "watermarks \<Rightarrow> string \<Rightarrow> int \<Rightarrow> watermarks" where
  "updateWatermark chatWatermarks chatId createTime =
     (let current = getWatermark chatWatermarks chatId in
      if createTime > current then chatWatermarks(chatId \<mapsto> createTime)
      else chatWatermarks)"

text \<open>Any number of later accepted messages, for any conversations.\<close>

fun updateWatermarks :: "watermarks \<Rightarrow> (string \<times> int) list \<Rightarrow> watermarks" where
  "updateWatermarks w [] = w"
| "updateWatermarks w ((c, t) # us) = updateWatermarks (updateWatermark w c t) us"

section \<open>Gateway: event deduplication (src/core/gateway.ts)\<close>

definition DEDUP_WINDOW_MS :: int where
  "DEDUP_WINDOW_MS = 24 * 60 * 60 * 1000"

definition DEDUP_CLEANUP_INTERVAL_MS :: int where
  "DEDUP_CLEANUP_INTERVAL_MS = 60 * 60 * 1000"

record DedupEntry =
  timestamp :: int

text \<open>
  \<^verbatim>\<open>const processedEvents = new Map<string, DedupEntry>();\<close>
  \<open>Date.now()\<close> is passed in as \<open>now\<close>.
\<close>

type_synonym processed = "string \<rightharpoonup> DedupEntry"

definition isDuplicateEvent :: "int \<Rightarrow> string \<Rightarrow> processed \<Rightarrow> bool \<times> processed" where
  "isDuplicateEvent now eventId processedEvents =
     (case processedEvents eventId of
        Some existing \<Rightarrow> (True, processedEvents)
      | None \<Rightarrow> (False, processedEvents(eventId \<mapsto> \<lparr>timestamp = now\<rparr>)))"

text \<open>
  The sweep deletes every entry whose timestamp is strictly below the cutoff; deleting
  from a JS Map while iterating it visits every entry once, so each entry is decided
  on its own.
\<close>

definition cleanupDedupEntries :: "int \<Rightarrow> processed \<Rightarrow> processed" where
  "cleanupDedupEntries now processedEvents =
     (let cutoff = now - DEDUP_WINDOW_MS in
      (\<lambda>eventId. case processedEvents eventId of
                    None \<Rightarrow> None
                  | Some entry \<Rightarrow> if timestamp entry < cutoff then None else Some entry))"

text \<open>
  What can happen to the map between two calls for one identifier: calls for other (or
  the same) identifiers and runs of the sweep, each at its own clock reading.
\<close>

datatype dedup_op = Dup int string | Sweep int

fun op_time :: "dedup_op \<Rightarrow> int" where
  "op_time (Dup now e) = now"
| "op_time (Sweep now) = now"

fun dedup_step :: "processed \<Rightarrow> dedup_op \<Rightarrow> processed" where
  "dedup_step m (Dup now e) = snd (isDuplicateEvent now e m)"
| "dedup_step m (Sweep now) = cleanupDedupEntries now m"

definition dedup_run :: "processed \<Rightarrow> dedup_op list \<Rightarrow> processed" where
  "dedup_run m ops = foldl dedup_step m ops"

section \<open>Message batcher (createChatBatcher)\<close>

definition STARTUP_WAIT_MS :: int where
  "STARTUP_WAIT_MS = 10000"

definition IDLE_THRESHOLD_MS :: int where
  "IDLE_THRESHOLD_MS = 1000"

definition DEBOUNCE_MS :: int where
  "DEBOUNCE_MS = 500"

text \<open>The fields of a parsed message that the unit tests construct; the batcher reads \<open>chatId\<close>.\<close>

record ParsedMessage =
  chatId :: string
  messageId :: string
  mentionedBot :: bool
  content :: string

record BatchFlushEvent =
  ev_chatId :: string
  ev_messages :: "ParsedMessage list"
  triggeredBy :: string
  triggeredAt :: int

text \<open>
  The event loop's pending timeouts. \<open>setTimeout\<close> appends one with a fresh handle,
  \<open>clearTimeout\<close> removes it. A callback is one of the two closures the batcher creates:
  the idle closure of \<open>startIdleTimer\<close> (capturing the conversation) and the debounce closure
  of \<open>startDebounceTimer\<close> (capturing the conversation and the trigger id).
\<close>

datatype timer_callback = IdleCb string | DebounceCb string string

record timer =
  timerId :: nat
  fireAt :: int
  callback :: timer_callback

record ChatState =
  buffer :: "ParsedMessage list"
  hasTrigger :: bool
  triggerId :: "string option"
  debounceTimer :: "nat option"
  idleTimer :: "nat option"
  lastMessageAt :: int

text \<open>
  The flush callback returns a promise; \<open>Rejects\<close> is a callback that throws. Every call
  made to it is recorded in \<open>calls\<close> with its outcome.
\<close>

datatype cb_result = Resolves | Rejects

record batcher =
  startedAt :: int
  clock :: int
  chatStates :: "(string \<times> ChatState) list"
  timers :: "timer list"
  nextTimerId :: nat
  flushCallback :: "(BatchFlushEvent \<Rightarrow> cb_result) option"
  calls :: "(BatchFlushEvent \<times> cb_result) list"

definition createChatBatcher :: "int \<Rightarrow> int \<Rightarrow> batcher" where
  "createChatBatcher started now =
     \<lparr>startedAt = started, clock = now, chatStates = [], timers = [], nextTimerId = 0,
      flushCallback = None, calls = []\<rparr>"

definition clearTimeout :: "nat \<Rightarrow> timer list \<Rightarrow> timer list" where
  "clearTimeout h ts = filter (\<lambda>t. timerId t \<noteq> h) ts"

definition setTimeout :: "timer_callback \<Rightarrow> int \<Rightarrow> batcher \<Rightarrow> nat \<times> batcher" where
  "setTimeout cb delay s =
     (nextTimerId s,
      s\<lparr>timers := timers s @ [\<lparr>timerId = nextTimerId s, fireAt = clock s + delay, callback = cb\<rparr>],
        nextTimerId := Suc (nextTimerId s)\<rparr>)"

text \<open>\<open>clearTimers(state)\<close>: on a state object and the pending timeouts.\<close>

definition clearTimers :: "ChatState \<Rightarrow> timer list \<Rightarrow> ChatState \<times> timer list" where
  "clearTimers st ts =
     (let (st1, ts1) = (case debounceTimer st of
                          Some h \<Rightarrow> (st\<lparr>debounceTimer := None\<rparr>, clearTimeout h ts)
                        | None \<Rightarrow> (st, ts));
          (st2, ts2) = (case idleTimer st1 of
                          Some h \<Rightarrow> (st1\<lparr>idleTimer := None\<rparr>, clearTimeout h ts1)
                        | None \<Rightarrow> (st1, ts1))
      in (st2, ts2))"

definition isInStartupPeriod :: "batcher \<Rightarrow> bool" where
  "isInStartupPeriod s = (clock s - startedAt s < STARTUP_WAIT_MS)"

text \<open>
  \<open>flush\<close> in its two parts. \<open>flushReset\<close> is everything before the callback is called: the
  guard, the capture of the buffer into the event, and the reset of the state. It yields
  the event and the batcher as the callback finds it, or nothing when the guard returns.
  \<open>invokeCallback\<close> is the call \<open>await flushCallback?.(event)\<close>; nothing of \<open>flush\<close> runs
  after the promise settles, so the outcome is only recorded.
\<close>

definition flushReset :: "string \<Rightarrow> string \<Rightarrow> batcher \<Rightarrow> (BatchFlushEvent \<times> batcher) option" where
  "flushReset c trg s =
     (case map_of (chatStates s) c of
        None \<Rightarrow> None
      | Some st \<Rightarrow>
          if buffer st = [] then None
          else
            let event = \<lparr>ev_chatId = c, ev_messages = buffer st, triggeredBy = trg,
                         triggeredAt = clock s\<rparr>;
                st1 = st\<lparr>buffer := [], hasTrigger := False, triggerId := None\<rparr>;
                (st2, ts2) = clearTimers st1 (timers s)
            in Some (event, s\<lparr>chatStates := AList.update c st2 (chatStates s), timers := ts2\<rparr>))"

definition invokeCallback :: "BatchFlushEvent \<Rightarrow> batcher \<Rightarrow> batcher" where
  "invokeCallback event s =
     (case flushCallback s of
        None \<Rightarrow> s
      | Some cb \<Rightarrow> s\<lparr>calls := calls s @ [(event, cb event)]\<rparr>)"

definition flush :: "string \<Rightarrow> string \<Rightarrow> batcher \<Rightarrow> batcher" where
  "flush c trg s =
     (case flushReset c trg s of
        None \<Rightarrow> s
      | Some (event, s2) \<Rightarrow> invokeCallback event s2)"

definition getOrCreateState :: "string \<Rightarrow> batcher \<Rightarrow> ChatState \<times> batcher" where
  "getOrCreateState c s =
     (case map_of (chatStates s) c of
        Some st \<Rightarrow> (st, s)
      | None \<Rightarrow>
          (let st = \<lparr>buffer = [], hasTrigger = False, triggerId = None, debounceTimer = None,
                     idleTimer = None, lastMessageAt = 0\<rparr>
           in (st, s\<lparr>chatStates := AList.update c st (chatStates s)\<rparr>)))"

definition startIdleTimer :: "string \<Rightarrow> ChatState \<Rightarrow> batcher \<Rightarrow> batcher" where
  "startIdleTimer c st s =
     (let s1 = (case idleTimer st of
                  Some h \<Rightarrow> s\<lparr>timers := clearTimeout h (timers s)\<rparr>
                | None \<Rightarrow> s);
          (h, s2) = setTimeout (IdleCb c) IDLE_THRESHOLD_MS s1
      in s2\<lparr>chatStates := AList.update c (st\<lparr>idleTimer := Some h\<rparr>) (chatStates s2)\<rparr>)"

definition startDebounceTimer :: "string \<Rightarrow> ChatState \<Rightarrow> string \<Rightarrow> batcher \<Rightarrow> batcher" where
  "startDebounceTimer c st trg s =
     (let s1 = (case debounceTimer st of
                  Some h \<Rightarrow> s\<lparr>timers := clearTimeout h (timers s)\<rparr>
                | None \<Rightarrow> s);
          (h, s2) = setTimeout (DebounceCb c trg) DEBOUNCE_MS s1
      in s2\<lparr>chatStates := AList.update c (st\<lparr>debounceTimer := Some h\<rparr>) (chatStates s2)\<rparr>)"

definition push :: "ParsedMessage \<Rightarrow> batcher \<Rightarrow> batcher" where
  "push message s =
     (let (st, s1) = getOrCreateState (chatId message) s;
          st1 = st\<lparr>buffer := buffer st @ [message], lastMessageAt := clock s1\<rparr>
      in startIdleTimer (chatId message) st1 s1)"

definition trigger :: "string \<Rightarrow> string \<Rightarrow> batcher \<Rightarrow> batcher" where
  "trigger c trg s =
     (let (st, s1) = getOrCreateState c s;
          st1 = st\<lparr>hasTrigger := True, triggerId := Some trg\<rparr>
      in startDebounceTimer c st1 trg s1)"

definition clear :: "string \<Rightarrow> batcher \<Rightarrow> batcher" where
  "clear c s =
     (case map_of (chatStates s) c of
        Some st \<Rightarrow> s\<lparr>timers := snd (clearTimers st (timers s)),
                      chatStates := AList.delete c (chatStates s)\<rparr>
      | None \<Rightarrow> s)"

definition dispose :: "batcher \<Rightarrow> batcher" where
  "dispose s =
     s\<lparr>timers := fold (\<lambda>st ts. snd (clearTimers st ts)) (map snd (chatStates s)) (timers s),
       chatStates := []\<rparr>"

definition onFlush :: "(BatchFlushEvent \<Rightarrow> cb_result) \<Rightarrow> batcher \<Rightarrow> batcher" where
  "onFlush cb s = s\<lparr>flushCallback := Some cb\<rparr>"

text \<open>
  Running a timer's closure. The idle closure reads \<open>hasTrigger\<close> and \<open>triggerId\<close> from the
  state object it captured; a state object leaves the map only through \<open>clear\<close> and
  \<open>dispose\<close>, which cancel its timers first, so while the timer is pending that object is
  the one stored under the conversation (lemma \<open>owned_reachable\<close> below).
\<close>

definition runCallback :: "timer_callback \<Rightarrow> batcher \<Rightarrow> batcher" where
  "runCallback cb s =
     (case cb of
        IdleCb c \<Rightarrow>
          (case map_of (chatStates s) c of
             None \<Rightarrow> s
           | Some st \<Rightarrow>
               if hasTrigger st \<and> \<not> isInStartupPeriod s
               then flush c (case triggerId st of Some i \<Rightarrow> i | None \<Rightarrow> ''idle-timeout'') s
               else s)
      | DebounceCb c trg \<Rightarrow> flush c trg s)"

text \<open>
  The event loop: of the timeouts due by time \<open>T\<close> the earliest fires first, the one created
  first among equals (the list is in creation order).
\<close>

fun earliest :: "timer list \<Rightarrow> timer option" where
  "earliest [] = None"
| "earliest (t # ts) =
     (case earliest ts of
        None \<Rightarrow> Some t
      | Some u \<Rightarrow> if fireAt u < fireAt t then Some u else Some t)"

definition nextDue :: "int \<Rightarrow> timer list \<Rightarrow> timer option" where
  "nextDue T ts = earliest (filter (\<lambda>t. fireAt t \<le> T) ts)"

definition fireTimer :: "timer \<Rightarrow> batcher \<Rightarrow> batcher" where
  "fireTimer t s =
     runCallback (callback t)
       (s\<lparr>clock := max (clock s) (fireAt t), timers := clearTimeout (timerId t) (timers s)\<rparr>)"

text \<open>
  Running a closure never creates a timeout (\<open>flush\<close> only cancels), so the number of pending
  timeouts goes down with every firing and the event loop below terminates.
\<close>

lemma length_clearTimeout: "length (clearTimeout h ts) \<le> length ts"
  by (simp add: clearTimeout_def)

lemma length_clearTimers: "length (snd (clearTimers st ts)) \<le> length ts"
  unfolding clearTimers_def Let_def
  by (auto split: option.splits prod.splits
      intro: length_clearTimeout order_trans [OF length_clearTimeout length_clearTimeout])

lemma timers_invokeCallback [simp]: "timers (invokeCallback e s) = timers s"
  by (simp add: invokeCallback_def split: option.splits)

lemma length_timers_flushReset:
  "flushReset c trg s = Some (e, s2) \<Longrightarrow> length (timers s2) \<le> length (timers s)"
  unfolding flushReset_def Let_def
  using length_clearTimers
  by (auto split: option.splits prod.splits if_splits) (metis snd_conv)

lemma length_timers_flush: "length (timers (flush c trg s)) \<le> length (timers s)"
  unfolding flush_def
  by (auto split: option.splits dest: length_timers_flushReset)

lemma length_timers_runCallback: "length (timers (runCallback cb s)) \<le> length (timers s)"
  unfolding runCallback_def
  by (auto split: timer_callback.splits option.splits simp: length_timers_flush)

lemma earliest_mem: "earliest ts = Some t \<Longrightarrow> t \<in> set ts"
  by (induction ts arbitrary: t) (auto split: option.splits if_splits)

lemma nextDue_mem: "nextDue T ts = Some t \<Longrightarrow> t \<in> set ts \<and> fireAt t \<le> T"
  unfolding nextDue_def by (drule earliest_mem) simp

lemma length_clearTimeout_mem: "t \<in> set ts \<Longrightarrow> length (clearTimeout (timerId t) ts) < length ts"
  unfolding clearTimeout_def
  by (induction ts) (auto simp: less_Suc_eq_le)

lemma length_timers_fireTimer:
  "t \<in> set (timers s) \<Longrightarrow> length (timers (fireTimer t s)) < length (timers s)"
  unfolding fireTimer_def
  by (rule le_less_trans [OF length_timers_runCallback]) (simp add: length_clearTimeout_mem)

text \<open>Letting time pass up to \<open>T\<close>: every timeout due by then fires, in order, at its own time.\<close>

function runTimers :: "int \<Rightarrow> batcher \<Rightarrow> batcher" where
  "runTimers T s =
     (case nextDue T (timers s) of
        None \<Rightarrow> s\<lparr>clock := max (clock s) T\<rparr>
      | Some t \<Rightarrow> runTimers T (fireTimer t s))"
  by pat_completeness auto
termination
  by (relation "measure (\<lambda>(T, s). length (timers s))")
     (auto dest!: nextDue_mem intro: length_timers_fireTimer)

declare runTimers.simps [simp del]

text \<open>What a user of the batcher can do with it, and the passing of time.\<close>

datatype action =
    Push ParsedMessage
  | Trigger string string
  | Clear string
  | Dispose
  | OnFlush "BatchFlushEvent \<Rightarrow> cb_result"
  | Advance nat

fun step :: "batcher \<Rightarrow> action \<Rightarrow> batcher" where
  "step s (Push m) = push m s"
| "step s (Trigger c trg) = trigger c trg s"
| "step s (Clear c) = clear c s"
| "step s Dispose = dispose s"
| "step s (OnFlush cb) = onFlush cb s"
| "step s (Advance d) = runTimers (clock s + int d) s"

definition run :: "batcher \<Rightarrow> action list \<Rightarrow> batcher" where
  "run s as = foldl step s as"

text \<open>The flush events handed to the callback so far, oldest first.\<close>

definition flushes :: "batcher \<Rightarrow> BatchFlushEvent list" where
  "flushes s = map fst (calls s)"

definition msg :: "string \<Rightarrow> string \<Rightarrow> ParsedMessage" where
  "msg c i = \<lparr>chatId = c, messageId = i, mentionedBot = False, content = i\<rparr>"

text \<open>Two callbacks: one whose promise always resolves, one that always throws.\<close>

definition alwaysResolves :: "BatchFlushEvent \<Rightarrow> cb_result" where
  "alwaysResolves e = Resolves"

definition alwaysRejects :: "BatchFlushEvent \<Rightarrow> cb_result" where
  "alwaysRejects e = Rejects"

text \<open>
  Ownership of the pending timeouts: an idle timeout is the one its conversation's state
  holds in \<open>idleTimer\<close>, a debounce timeout the one it holds in \<open>debounceTimer\<close>. This is
  what lets \<open>clearTimers\<close> reach every pending timeout of a conversation.
\<close>

definition owner_ok :: "batcher \<Rightarrow> timer \<Rightarrow> bool" where
  "owner_ok s t =
     (case callback t of
        IdleCb c \<Rightarrow>
          (case map_of (chatStates s) c of
             None \<Rightarrow> False
           | Some st \<Rightarrow> idleTimer st = Some (timerId t))
      | DebounceCb c trg \<Rightarrow>
          (case map_of (chatStates s) c of
             None \<Rightarrow> False
           | Some st \<Rightarrow> debounceTimer st = Some (timerId t)))"

definition owned :: "batcher \<Rightarrow> bool" where
  "owned s = list_all (owner_ok s) (timers s)"

text \<open>The state \<open>getOrCreateState\<close> creates, and the state a conversation has or would get.\<close>

definition newState :: ChatState where
  "newState = \<lparr>buffer = [], hasTrigger = False, triggerId = None, debounceTimer = None,
               idleTimer = None, lastMessageAt = 0\<rparr>"

definition stateOf :: "batcher \<Rightarrow> string \<Rightarrow> ChatState" where
  "stateOf s c = (case map_of (chatStates s) c of Some st \<Rightarrow> st | None \<Rightarrow> newState)"

text \<open>The conversation a closure belongs to.\<close>

fun chatOf :: "timer_callback \<Rightarrow> string" where
  "chatOf (IdleCb c) = c"
| "chatOf (DebounceCb c trg) = c"

text \<open>Every call made to the callback so far carried at least one message.\<close>

definition nonemptyCalls :: "batcher \<Rightarrow> bool" where
  "nonemptyCalls s = list_all (\<lambda>(e, r). ev_messages e \<noteq> []) (calls s)"

text \<open>A conversation with no pending timeout is not flushed by the passing of time.\<close>

definition quiet :: "string \<Rightarrow> batcher \<Rightarrow> bool" where
  "quiet c s = list_all (\<lambda>t. chatOf (callback t) \<noteq> c) (timers s)"

text \<open>The flush events of one conversation.\<close>

definition flushesOf :: "string \<Rightarrow> batcher \<Rightarrow> BatchFlushEvent list" where
  "flushesOf c s = filter (\<lambda>e. ev_chatId e = c) (flushes s)"





section \<open>Gateway: reconnection with backoff (src/core/gateway.ts)\<close>

definition RECONNECT_BASE_DELAY_MS :: int where
  "RECONNECT_BASE_DELAY_MS = 1000"

definition RECONNECT_MAX_DELAY_MS :: int where
  "RECONNECT_MAX_DELAY_MS = 60000"

definition RECONNECT_MAX_ATTEMPTS :: nat where
  "RECONNECT_MAX_ATTEMPTS = 20"

definition calculateBackoffDelay :: "nat \<Rightarrow> int" where
  "calculateBackoffDelay attempt =
     (let delay = RECONNECT_BASE_DELAY_MS * 2 ^ attempt in min delay RECONNECT_MAX_DELAY_MS)"

text \<open>The fields of \<open>GatewayState\<close> that the reconnect loop reads and writes.\<close>

record GatewayState =
  isReconnecting :: bool
  reconnectAttempts :: nat
  shouldStop :: bool

text \<open>
  What the outside world does in one iteration of the loop: the connection comes up, or
  creating or starting the client throws. The two flags of a failure say whether a stop was
  requested (\<open>shouldStop\<close> set by the abort handler) while the connection was being attempted
  and while the loop slept.
\<close>

datatype attempt = Connects | Fails bool bool

text \<open>
  \<open>Serving\<close>: the connection is up and the call stays pending until a stop is requested, then
  returns. \<open>Returned\<close>: the call has returned normally. \<open>Fatal\<close>: it has thrown.
\<close>

datatype outcome = Serving | Returned | Fatal string

function startWithReconnect ::
  "(nat \<Rightarrow> attempt) \<Rightarrow> nat \<Rightarrow> GatewayState \<Rightarrow> int list \<Rightarrow> outcome \<times> GatewayState \<times> int list" where
  "startWithReconnect env k s sleeps =
     (if \<not> shouldStop s \<and> reconnectAttempts s < RECONNECT_MAX_ATTEMPTS then
        (case env k of
           Connects \<Rightarrow> (Serving, s\<lparr>reconnectAttempts := 0, isReconnecting := False\<rparr>, sleeps)
         | Fails stopWhileConnecting stopWhileSleeping \<Rightarrow>
             (let s1 = s\<lparr>shouldStop := shouldStop s \<or> stopWhileConnecting\<rparr>;
                  s2 = s1\<lparr>reconnectAttempts := reconnectAttempts s1 + 1, isReconnecting := True\<rparr>
              in if shouldStop s2 then (Returned, s2, sleeps)
                 else if reconnectAttempts s2 \<ge> RECONNECT_MAX_ATTEMPTS
                 then (Fatal ''WebSocket connection failed after 20 attempts'', s2, sleeps)
                 else (let delay = calculateBackoffDelay (reconnectAttempts s2);
                           s3 = s2\<lparr>shouldStop := shouldStop s2 \<or> stopWhileSleeping\<rparr>
                       in startWithReconnect env (Suc k) s3 (sleeps @ [delay]))))
      else (Returned, s, sleeps))"
  by pat_completeness auto
termination
  by (relation "measure (\<lambda>(env, k, s, sleeps). RECONNECT_MAX_ATTEMPTS - reconnectAttempts s)")
     auto

declare startWithReconnect.simps [simp del]

text \<open>The delays slept after the failures that bring the counter from \<open>a\<close> to \<open>a + n\<close>.\<close>

definition backoffs :: "nat \<Rightarrow> nat \<Rightarrow> int list" where
  "backoffs a n = map (\<lambda>i. min (1000 * 2 ^ i) 60000) [Suc a ..< Suc (a + n)]"

section \<open>Gateway: per-chat serial queue (src/core/gateway.ts)\<close>

text \<open>
  A queued handler: its identity, whether its promise rejects, and the messages of the same
  chat that arrive (and are enqueued) while it is awaited.
\<close>

datatype job = Job (jobId: nat) (throws: bool) (arrivals: "job list")

record ChatQueue =
  messages :: "job list"
  processing :: bool

text \<open>
  What is observed: the log lines of \<open>enqueueMessage\<close> and \<open>processQueue\<close>, and around each
  handler the \<open>shift\<close> that took it off the queue and the settling of its promise
  (\<open>True\<close> when it rejected).
\<close>

datatype trace_entry =
    Queued string nat nat
  | Starting string
  | Shifted nat
  | Settled nat bool
  | ErrorLogged nat
  | Completed string

record queues =
  chatQueues :: "string \<rightharpoonup> ChatQueue"
  trace :: "trace_entry list"

text \<open>\<open>enqueueMessage\<close> up to its log line: get or create the queue, push, log.\<close>

definition enqueuePush :: "string \<Rightarrow> job \<Rightarrow> queues \<Rightarrow> queues" where
  "enqueuePush c j st =
     (let queue = (case chatQueues st c of
                     Some q \<Rightarrow> q
                   | None \<Rightarrow> \<lparr>messages = [], processing = False\<rparr>);
          queue' = queue\<lparr>messages := messages queue @ [j]\<rparr>
      in st\<lparr>chatQueues := (chatQueues st)(c \<mapsto> queue'),
            trace := trace st @ [Queued c (jobId j) (length (messages queue'))]\<rparr>)"

lemma chatQueues_fold_enqueuePush:
  "chatQueues st c = Some q \<Longrightarrow>
   chatQueues (fold (enqueuePush c) js st) c = Some (q\<lparr>messages := messages q @ js\<rparr>)"
  by (induction js arbitrary: st q) (simp_all add: enqueuePush_def)

text \<open>
  The \<open>while\<close> loop of \<open>processQueue\<close>. While a handler is awaited the queue is marked as
  processing, so an arrival's \<open>enqueueMessage\<close> only pushes (lemma
  \<open>enqueueMessage_while_processing\<close> below).
\<close>

function drainLoop :: "string \<Rightarrow> queues \<Rightarrow> queues" where
  "drainLoop c st =
     (case chatQueues st c of
        None \<Rightarrow> st
      | Some queue \<Rightarrow>
          (case messages queue of
             [] \<Rightarrow> st
           | item # rest \<Rightarrow>
               (let st1 = st\<lparr>chatQueues := (chatQueues st)(c \<mapsto> queue\<lparr>messages := rest\<rparr>),
                             trace := trace st @ [Shifted (jobId item)]\<rparr>;
                    st2 = fold (enqueuePush c) (arrivals item) st1;
                    st3 = st2\<lparr>trace := trace st2 @ [Settled (jobId item) (throws item)]
                                  @ (if throws item then [ErrorLogged (jobId item)] else [])\<rparr>
                in drainLoop c st3)))"
  by pat_completeness auto
termination
proof (relation "measure (\<lambda>(c, st). case chatQueues st c of
                    None \<Rightarrow> 0 | Some q \<Rightarrow> sum_list (map size (messages q)))", goal_cases)
  case 1
  show ?case by simp
next
  case (2 c st queue item rest st1 st2 st3)
  have "chatQueues st1 c = Some (queue\<lparr>messages := rest\<rparr>)"
    using 2 by simp
  then have "chatQueues st2 c = Some (queue\<lparr>messages := rest @ arrivals item\<rparr>)"
    using 2 by (simp add: chatQueues_fold_enqueuePush)
  moreover have "sum_list (map size (arrivals item)) < size item"
    by (cases item) (simp add: size_list_conv_sum_list)
  ultimately show ?case
    using 2 by simp
qed

declare drainLoop.simps [simp del]

definition processQueue :: "string \<Rightarrow> queues \<Rightarrow> queues" where
  "processQueue c st =
     (case chatQueues st c of
        None \<Rightarrow> st
      | Some queue \<Rightarrow>
          if processing queue then st
          else
            (let st1 = st\<lparr>chatQueues := (chatQueues st)(c \<mapsto> queue\<lparr>processing := True\<rparr>),
                          trace := trace st @ [Starting c]\<rparr>;
                 st2 = drainLoop c st1;
                 st3 = st2\<lparr>chatQueues := (case chatQueues st2 c of
                                              None \<Rightarrow> chatQueues st2
                                            | Some q \<Rightarrow> (chatQueues st2)(c \<mapsto> q\<lparr>processing := False\<rparr>)),
                           trace := trace st2 @ [Completed c]\<rparr>
             in (case chatQueues st3 c of
                   None \<Rightarrow> st3
                 | Some q \<Rightarrow>
                     if messages q = [] then st3\<lparr>chatQueues := (chatQueues st3)(c := None)\<rparr>
                     else st3)))"

definition enqueueMessage :: "string \<Rightarrow> job \<Rightarrow> queues \<Rightarrow> queues" where
  "enqueueMessage c j st =
     (let st1 = enqueuePush c j st
      in (case chatQueues st1 c of
            None \<Rightarrow> st1
          | Some queue \<Rightarrow> if \<not> processing queue then processQueue c st1 else st1))"

text \<open>
  Reading the trace: the handlers in the order they were queued, in the order they were
  taken off the queue, those that rejected, and those for which an error was logged.
\<close>

definition queuedJobs :: "trace_entry list \<Rightarrow> nat list" where
  "queuedJobs es = concat (map (\<lambda>e. case e of Queued c j n \<Rightarrow> [j] | _ \<Rightarrow> []) es)"

definition shiftedJobs :: "trace_entry list \<Rightarrow> nat list" where
  "shiftedJobs es = concat (map (\<lambda>e. case e of Shifted j \<Rightarrow> [j] | _ \<Rightarrow> []) es)"

definition rejectedJobs :: "trace_entry list \<Rightarrow> nat list" where
  "rejectedJobs es = concat (map (\<lambda>e. case e of Settled j r \<Rightarrow> (if r then [j] else []) | _ \<Rightarrow> []) es)"

definition loggedErrors :: "trace_entry list \<Rightarrow> nat list" where
  "loggedErrors es = concat (map (\<lambda>e. case e of ErrorLogged j \<Rightarrow> [j] | _ \<Rightarrow> []) es)"

text \<open>The handlers whose promise settled, in order, each with whether it rejected.\<close>

definition settledJobs :: "trace_entry list \<Rightarrow> (nat \<times> bool) list" where
  "settledJobs es = concat (map (\<lambda>e. case e of Settled j r \<Rightarrow> [(j, r)] | _ \<Rightarrow> []) es)"

text \<open>
  First in, first out, in the spec's words: the handlers of a queue run in the order in
  which they were enqueued. The head runs first; what arrives while it is awaited was
  enqueued after everything already waiting, so it runs after the rest of the queue.
\<close>

function runOrder :: "job list \<Rightarrow> job list" where
  "runOrder [] = []"
| "runOrder (j # q) = j # runOrder (q @ arrivals j)"
  by pat_completeness auto
termination
proof (relation "measure (\<lambda>q. sum_list (map size q))", goal_cases)
  case 1
  show ?case by simp
next
  case (2 j q)
  have "sum_list (map size (arrivals j)) < size j"
    by (cases j) (simp add: size_list_conv_sum_list)
  then show ?case by simp
qed

text \<open>
  No overlap: every \<open>shift\<close> happens while no handler is pending, and the next settling is
  that of the handler just taken. The argument is the handler pending, if any.
\<close>

fun serial :: "nat option \<Rightarrow> trace_entry list \<Rightarrow> bool" where
  "serial pending [] = (pending = None)"
| "serial pending (Shifted j # es) = (pending = None \<and> serial (Some j) es)"
| "serial pending (Settled j r # es) = (pending = Some j \<and> serial None es)"
| "serial pending (e # es) = serial pending es"

section \<open>Gateway: the message event handler (src/core/gateway.ts)\<close>

definition MAX_MESSAGE_AGE_MS :: int where
  "MAX_MESSAGE_AGE_MS = 5 * 60 * 1000"

text \<open>
  The fields of the event that the handler reads. \<open>create_time\<close> is the field after
  \<open>Number(...)\<close>, with \<open>None\<close> for \<open>NaN\<close> (the field is absent or not numeric).
\<close>

record Message =
  message_id :: "string option"
  chat_id :: "string option"
  create_time :: "int option"

record MessageReceivedEvent =
  event_id :: "string option"
  message :: "Message option"

record gateway_maps =
  processedEvents :: processed
  chatWatermarks :: watermarks

datatype decision =
    SkipDuplicate string
  | SkipStaleWatermark string
  | SkipTooOld
  | Enqueue string

text \<open>\<open>event.message?.field\<close>: undefined when the message or the field is absent.\<close>

definition messageField :: "(Message \<Rightarrow> 'a option) \<Rightarrow> MessageReceivedEvent \<Rightarrow> 'a option" where
  "messageField f event = (case message event of None \<Rightarrow> None | Some m \<Rightarrow> f m)"

text \<open>JavaScript truthiness of an optional string and of a number.\<close>

fun truthyString :: "string option \<Rightarrow> string option" where
  "truthyString (Some k) = (if k = [] then None else Some k)"
| "truthyString None = None"

fun truthyNumber :: "int option \<Rightarrow> int option" where
  "truthyNumber (Some n) = (if n = 0 then None else Some n)"
| "truthyNumber None = None"

definition receiveMessage :: "int \<Rightarrow> MessageReceivedEvent \<Rightarrow> gateway_maps \<Rightarrow> decision \<times> gateway_maps" where
  "receiveMessage now event g =
     (let dedupKey = (case event_id event of
                        Some e \<Rightarrow> Some e
                      | None \<Rightarrow> messageField message_id event);
          (dup, g1) = (case truthyString dedupKey of
                         None \<Rightarrow> (None, g)
                       | Some k \<Rightarrow>
                           (let (d, pe) = isDuplicateEvent now k (processedEvents g)
                            in (if d then Some k else None, g\<lparr>processedEvents := pe\<rparr>)))
      in case dup of
           Some k \<Rightarrow> (SkipDuplicate k, g1)
         | None \<Rightarrow>
            (let chatId = messageField chat_id event;
                 messageCreateTime = messageField create_time event;
                 stale = (case (truthyString chatId, truthyNumber messageCreateTime) of
                            (Some c, Some t) \<Rightarrow>
                              if isStaleMessage (chatWatermarks g1) c t then Some c else None
                          | _ \<Rightarrow> None)
             in case stale of
                  Some c \<Rightarrow> (SkipStaleWatermark c, g1)
                | None \<Rightarrow>
                   (let tooOld = (case truthyNumber messageCreateTime of
                                    Some t \<Rightarrow> now - t > MAX_MESSAGE_AGE_MS
                                  | None \<Rightarrow> False)
                    in if tooOld then (SkipTooOld, g1)
                       else
                         (let g2 = (case (truthyString chatId, truthyNumber messageCreateTime) of
                                      (Some c, Some t) \<Rightarrow>
                                        g1\<lparr>chatWatermarks := updateWatermark (chatWatermarks g1) c t\<rparr>
                                    | _ \<Rightarrow> g1);
                              queueChatId = (case chatId of Some c \<Rightarrow> c | None \<Rightarrow> ''unknown'')
                          in (Enqueue queueChatId, g2)))))"

section \<open>Properties of the watermark filter\<close>

lemma getWatermark_update:
  "getWatermark (updateWatermark w c t) c' =
     (if c' = c then max (getWatermark w c) t else getWatermark w c')"
  by (simp add: updateWatermark_def getWatermark_def Let_def max_def)

lemma getWatermark_mono: "getWatermark w c \<le> getWatermark (updateWatermark w c' t) c"
  by (simp add: getWatermark_update)

lemma getWatermark_updates_mono: "getWatermark w c \<le> getWatermark (updateWatermarks w us) c"
proof (induction us arbitrary: w)
  case Nil
  show ?case by simp
next
  case (Cons u us)
  obtain c' t where u: "u = (c', t)" by (cases u)
  have "getWatermark w c \<le> getWatermark (updateWatermark w c' t) c"
    by (rule getWatermark_mono)
  also have "\<dots> \<le> getWatermark (updateWatermarks (updateWatermark w c' t) us) c"
    by (rule Cons.IH)
  finally show ?case by (simp add: u)
qed

text \<open>
  Claim C4. The staleness check is true exactly when the create time is at most the
  conversation's watermark (0 when the conversation has none); advancing leaves the
  watermark at the maximum of its old value and the create time; and once \<open>t2\<close> has
  been accepted, then after any further accepted messages a check with an earlier
  \<open>t1\<close> and a check with \<open>t2\<close> itself are both stale.
\<close>

theorem watermark_filter:
  "isStaleMessage w c t = (t \<le> (case w c of None \<Rightarrow> 0 | Some v \<Rightarrow> v))
   \<and> getWatermark (updateWatermark w c t) c = max (getWatermark w c) t
   \<and> (t1 < t2 \<longrightarrow>
        isStaleMessage (updateWatermarks (updateWatermark w c t2) us) c t1
      \<and> isStaleMessage (updateWatermarks (updateWatermark w c t2) us) c t2)"
proof -
  have a: "isStaleMessage w c t = (t \<le> (case w c of None \<Rightarrow> 0 | Some v \<Rightarrow> v))"
    by (simp add: isStaleMessage_def getWatermark_def)
  have b: "getWatermark (updateWatermark w c t) c = max (getWatermark w c) t"
    by (simp add: getWatermark_update)
  have "t2 \<le> getWatermark (updateWatermark w c t2) c"
    by (simp add: getWatermark_update)
  also have "\<dots> \<le> getWatermark (updateWatermarks (updateWatermark w c t2) us) c"
    by (rule getWatermark_updates_mono)
  finally have c: "t2 \<le> getWatermark (updateWatermarks (updateWatermark w c t2) us) c" .
  from a b c show ?thesis
    by (simp add: isStaleMessage_def)
qed

theorem watermark_filter_witness:
  "(1000::int) < 2000
   \<and> isStaleMessage (updateWatermarks (updateWatermark Map.empty ''oc_1'' 2000)
         [(''oc_2'', 5000), (''oc_1'', 1500)]) ''oc_1'' 1000
   \<and> isStaleMessage (updateWatermarks (updateWatermark Map.empty ''oc_1'' 2000)
         [(''oc_2'', 5000), (''oc_1'', 1500)]) ''oc_1'' 2000
   \<and> \<not> isStaleMessage (updateWatermarks (updateWatermark Map.empty ''oc_1'' 2000)
         [(''oc_2'', 5000), (''oc_1'', 1500)]) ''oc_1'' 2001"
  using watermark_filter [of Map.empty "''oc_1''" 0 1000 2000 "[(''oc_2'', 5000), (''oc_1'', 1500)]"]
  by (simp add: isStaleMessage_def updateWatermark_def getWatermark_def)

section \<open>Properties of the event deduplicator\<close>

lemma dedup_step_keeps:
  "m e = Some entry \<Longrightarrow> op_time x \<le> timestamp entry + DEDUP_WINDOW_MS \<Longrightarrow>
   dedup_step m x e = Some entry"
  by (cases x) (auto simp: isDuplicateEvent_def cleanupDedupEntries_def Let_def split: option.splits)

lemma dedup_run_keeps:
  "m e = Some entry \<Longrightarrow> \<forall>x\<in>set ops. op_time x \<le> timestamp entry + DEDUP_WINDOW_MS \<Longrightarrow>
   dedup_run m ops e = Some entry"
  unfolding dedup_run_def
  by (induction ops arbitrary: m) (simp_all add: dedup_step_keeps)

text \<open>
  Claim C5. A call for an identifier that is not in the map returns false and records the
  identifier with the current time. Whatever calls and sweeps follow while the clock is
  within the 24-hour window of that time, a further call for the identifier returns true.
  Once the clock is past the window, a run of the sweep removes the entry and a further
  call returns false again.
\<close>

theorem dedup_contract:
  "m e = None \<Longrightarrow>
     isDuplicateEvent now e m = (False, m(e \<mapsto> \<lparr>timestamp = now\<rparr>))
   \<and> ((\<forall>x\<in>set ops. op_time x \<le> now + DEDUP_WINDOW_MS) \<longrightarrow>
          fst (isDuplicateEvent t e (dedup_run (snd (isDuplicateEvent now e m)) ops))
        \<and> (now + DEDUP_WINDOW_MS < later \<longrightarrow>
             \<not> fst (isDuplicateEvent t' e
                   (cleanupDedupEntries later (dedup_run (snd (isDuplicateEvent now e m)) ops)))))"
proof -
  assume first: "m e = None"
  have a: "isDuplicateEvent now e m = (False, m(e \<mapsto> \<lparr>timestamp = now\<rparr>))"
    using first by (simp add: isDuplicateEvent_def)
  have k: "dedup_run (snd (isDuplicateEvent now e m)) ops e = Some \<lparr>timestamp = now\<rparr>"
    if "\<forall>x\<in>set ops. op_time x \<le> now + DEDUP_WINDOW_MS"
    using that by (intro dedup_run_keeps) (simp_all add: a)
  have b: "fst (isDuplicateEvent t e (dedup_run (snd (isDuplicateEvent now e m)) ops))"
    if "\<forall>x\<in>set ops. op_time x \<le> now + DEDUP_WINDOW_MS"
    using k [OF that] by (simp add: isDuplicateEvent_def)
  have c: "\<not> fst (isDuplicateEvent t' e
                 (cleanupDedupEntries later (dedup_run (snd (isDuplicateEvent now e m)) ops)))"
    if "\<forall>x\<in>set ops. op_time x \<le> now + DEDUP_WINDOW_MS" "now + DEDUP_WINDOW_MS < later"
    using k [OF that(1)] that(2)
    by (simp add: isDuplicateEvent_def cleanupDedupEntries_def Let_def)
  from a b c show ?thesis by blast
qed

theorem dedup_contract_witness:
  "isDuplicateEvent 1000 ''ev_1'' Map.empty = (False, [''ev_1'' \<mapsto> \<lparr>timestamp = 1000\<rparr>])
   \<and> fst (isDuplicateEvent 86401000 ''ev_1''
        (dedup_run (snd (isDuplicateEvent 1000 ''ev_1'' Map.empty))
           [Dup 2000 ''ev_2'', Sweep 3601000, Dup 5000000 ''ev_1'', Sweep 86401000]))
   \<and> \<not> fst (isDuplicateEvent 86401001 ''ev_1''
        (cleanupDedupEntries 86401001
          (dedup_run (snd (isDuplicateEvent 1000 ''ev_1'' Map.empty))
             [Dup 2000 ''ev_2'', Sweep 3601000, Dup 5000000 ''ev_1'', Sweep 86401000])))"
proof -
  let ?ops = "[Dup 2000 ''ev_2'', Sweep 3601000, Dup 5000000 ''ev_1'', Sweep 86401000]"
  have h1: "(Map.empty :: processed) ''ev_1'' = None"
    by simp
  have h2: "\<forall>x\<in>set ?ops. op_time x \<le> 1000 + DEDUP_WINDOW_MS"
    by (simp add: DEDUP_WINDOW_MS_def)
  have h3: "1000 + DEDUP_WINDOW_MS < 86401001"
    by (simp add: DEDUP_WINDOW_MS_def)
  from dedup_contract [OF h1, where now = 1000 and ops = ?ops and t = 86401000
      and later = 86401001 and t' = 86401001] h2 h3
  show ?thesis by blast
qed

section \<open>Properties of the reconnect loop\<close>

lemma backoffs_Suc: "backoffs a (Suc n) = min (1000 * 2 ^ Suc a) 60000 # backoffs (Suc a) n"
  by (simp add: backoffs_def upt_conv_Cons del: upt_Suc)

lemma stop_unchanged: "\<not> shouldStop s \<Longrightarrow> s\<lparr>shouldStop := False\<rparr> = s"
  by simp

lemma reconnect_failure_step:
  assumes "\<not> shouldStop s" "Suc (reconnectAttempts s) < RECONNECT_MAX_ATTEMPTS"
    "env k = Fails False False"
  shows "startWithReconnect env k s sleeps =
     startWithReconnect env (Suc k)
       (s\<lparr>reconnectAttempts := Suc (reconnectAttempts s), isReconnecting := True\<rparr>)
       (sleeps @ [min (1000 * 2 ^ Suc (reconnectAttempts s)) 60000])"
proof -
  have eq: "s\<lparr>reconnectAttempts := Suc (reconnectAttempts s), isReconnecting := True,
          shouldStop := False\<rparr> =
        s\<lparr>reconnectAttempts := Suc (reconnectAttempts s), isReconnecting := True\<rparr>"
    using assms(1) by (cases s) simp
  show ?thesis
    using assms
    by (subst startWithReconnect.simps)
       (simp add: Let_def calculateBackoffDelay_def RECONNECT_BASE_DELAY_MS_def
          RECONNECT_MAX_DELAY_MS_def eq)
qed

lemma reconnect_failures:
  "\<not> shouldStop s \<Longrightarrow> reconnectAttempts s + n < RECONNECT_MAX_ATTEMPTS \<Longrightarrow>
   (\<forall>i<n. env (k + i) = Fails False False) \<Longrightarrow> 0 < n \<Longrightarrow>
   startWithReconnect env k s sleeps =
     startWithReconnect env (k + n)
       (s\<lparr>reconnectAttempts := reconnectAttempts s + n, isReconnecting := True\<rparr>)
       (sleeps @ backoffs (reconnectAttempts s) n)"
proof (induction n arbitrary: k s sleeps)
  case 0
  then show ?case by simp
next
  case (Suc n)
  let ?s1 = "s\<lparr>reconnectAttempts := Suc (reconnectAttempts s), isReconnecting := True\<rparr>"
  have e0: "env k = Fails False False"
    using Suc.prems(3) by (metis add.right_neutral zero_less_Suc)
  have stepeq: "startWithReconnect env k s sleeps =
      startWithReconnect env (Suc k) ?s1 (sleeps @ [min (1000 * 2 ^ Suc (reconnectAttempts s)) 60000])"
    using Suc.prems(1,2) e0 by (intro reconnect_failure_step) simp_all
  show ?case
  proof (cases "n = 0")
    case True
    then show ?thesis
      using stepeq by (simp add: backoffs_def)
  next
    case False
    have "startWithReconnect env (Suc k) ?s1 (sleeps @ [min (1000 * 2 ^ Suc (reconnectAttempts s)) 60000]) =
          startWithReconnect env (Suc k + n)
            (?s1\<lparr>reconnectAttempts := reconnectAttempts ?s1 + n, isReconnecting := True\<rparr>)
            ((sleeps @ [min (1000 * 2 ^ Suc (reconnectAttempts s)) 60000]) @ backoffs (reconnectAttempts ?s1) n)"
    proof (rule Suc.IH)
      show "\<not> shouldStop ?s1" using Suc.prems(1) by simp
      show "reconnectAttempts ?s1 + n < RECONNECT_MAX_ATTEMPTS" using Suc.prems(2) by simp
      show "\<forall>i<n. env (Suc k + i) = Fails False False"
        using Suc.prems(3) by (metis Suc_less_eq add_Suc_shift)
      show "0 < n" using False by simp
    qed
    with stepeq show ?thesis
      by (simp add: backoffs_Suc)
  qed
qed

lemma reconnect_connects:
  "\<not> shouldStop s \<Longrightarrow> reconnectAttempts s < RECONNECT_MAX_ATTEMPTS \<Longrightarrow> env k = Connects \<Longrightarrow>
   startWithReconnect env k s sleeps =
     (Serving, s\<lparr>reconnectAttempts := 0, isReconnecting := False\<rparr>, sleeps)"
  by (subst startWithReconnect.simps) simp

lemma reconnect_fatal:
  assumes "\<not> shouldStop s" "Suc (reconnectAttempts s) = RECONNECT_MAX_ATTEMPTS"
    "env k = Fails False b"
  shows "startWithReconnect env k s sleeps =
     (Fatal ''WebSocket connection failed after 20 attempts'',
      s\<lparr>reconnectAttempts := Suc (reconnectAttempts s), isReconnecting := True\<rparr>, sleeps)"
proof -
  have eq: "s\<lparr>reconnectAttempts := RECONNECT_MAX_ATTEMPTS, isReconnecting := True,
          shouldStop := False\<rparr> =
        s\<lparr>reconnectAttempts := RECONNECT_MAX_ATTEMPTS, isReconnecting := True\<rparr>"
    using assms(1) by (cases s) simp
  have lt: "reconnectAttempts s < RECONNECT_MAX_ATTEMPTS"
    using assms(2) by simp
  show ?thesis
    using assms(1,3) lt assms(2) [symmetric]
    by (subst startWithReconnect.simps) (simp add: Let_def eq)
qed

text \<open>
  Claim C6. The backoff delay for attempt \<open>a\<close> is \<open>min(1000 * 2^a, 60000)\<close>. With no stop
  requested, a loop entered with the counter at 0 whose first \<open>n\<close> connection attempts fail
  has incremented the counter at each failure and slept, after the failure that made the
  counter \<open>i\<close>, the delay for \<open>i\<close> (for \<open>i = 1, ..., n\<close>); if the next attempt connects, the
  counter is back at 0; and the twentieth failure in a row throws the terminal error
  without sleeping again.
\<close>

theorem reconnect_backoff:
  "\<not> shouldStop s \<Longrightarrow> reconnectAttempts s = 0 \<Longrightarrow> (\<forall>i<n. env i = Fails False False) \<Longrightarrow>
     calculateBackoffDelay a = min (1000 * 2 ^ a) 60000
   \<and> (n < 20 \<and> env n = Connects \<longrightarrow>
        startWithReconnect env 0 s [] =
          (Serving, s\<lparr>reconnectAttempts := 0, isReconnecting := False\<rparr>,
           map calculateBackoffDelay [1 ..< Suc n]))
   \<and> (n = 20 \<longrightarrow>
        startWithReconnect env 0 s [] =
          (Fatal ''WebSocket connection failed after 20 attempts'',
           s\<lparr>reconnectAttempts := 20, isReconnecting := True\<rparr>,
           map calculateBackoffDelay [1 ..< 20]))"
proof -
  assume ns: "\<not> shouldStop s" and a0: "reconnectAttempts s = 0"
    and fails: "\<forall>i<n. env i = Fails False False"
  have bk: "backoffs 0 m = map calculateBackoffDelay [1 ..< Suc m]" for m
    by (simp add: backoffs_def calculateBackoffDelay_def RECONNECT_BASE_DELAY_MS_def
        RECONNECT_MAX_DELAY_MS_def del: upt_Suc)
  have A: "calculateBackoffDelay a = min (1000 * 2 ^ a) 60000"
    by (simp add: calculateBackoffDelay_def RECONNECT_BASE_DELAY_MS_def RECONNECT_MAX_DELAY_MS_def)
  have B: "startWithReconnect env 0 s [] =
          (Serving, s\<lparr>reconnectAttempts := 0, isReconnecting := False\<rparr>,
           map calculateBackoffDelay [1 ..< Suc n])"
    if n: "n < 20" and c: "env n = Connects"
  proof (cases "n = 0")
    case True
    then show ?thesis
      using ns a0 c by (simp add: reconnect_connects RECONNECT_MAX_ATTEMPTS_def)
  next
    case False
    let ?s = "s\<lparr>reconnectAttempts := reconnectAttempts s + n, isReconnecting := True\<rparr>"
    have "startWithReconnect env 0 s [] = startWithReconnect env (0 + n) ?s ([] @ backoffs (reconnectAttempts s) n)"
      using ns a0 fails n False
      by (intro reconnect_failures) (simp_all add: RECONNECT_MAX_ATTEMPTS_def)
    also have "\<dots> = (Serving, ?s\<lparr>reconnectAttempts := 0, isReconnecting := False\<rparr>,
                     [] @ backoffs (reconnectAttempts s) n)"
      using ns a0 n c
      by (intro reconnect_connects) (simp_all add: RECONNECT_MAX_ATTEMPTS_def)
    finally show ?thesis
      by (simp add: a0 bk del: upt_Suc)
  qed
  have C: "startWithReconnect env 0 s [] =
          (Fatal ''WebSocket connection failed after 20 attempts'',
           s\<lparr>reconnectAttempts := 20, isReconnecting := True\<rparr>,
           map calculateBackoffDelay [1 ..< 20])"
    if n: "n = 20"
  proof -
    let ?s = "s\<lparr>reconnectAttempts := reconnectAttempts s + 19, isReconnecting := True\<rparr>"
    have "startWithReconnect env 0 s [] = startWithReconnect env (0 + 19) ?s ([] @ backoffs (reconnectAttempts s) 19)"
      using ns a0 fails n
      by (intro reconnect_failures) (simp_all add: RECONNECT_MAX_ATTEMPTS_def)
    also have "\<dots> = (Fatal ''WebSocket connection failed after 20 attempts'',
                     ?s\<lparr>reconnectAttempts := Suc (reconnectAttempts ?s), isReconnecting := True\<rparr>,
                     [] @ backoffs (reconnectAttempts s) 19)"
      using ns a0 n fails
      by (intro reconnect_fatal [where b = False]) (simp_all add: RECONNECT_MAX_ATTEMPTS_def)
    finally show ?thesis
      using bk [of 19] by (simp add: a0 del: upt_Suc)
  qed
  from A B C show ?thesis by blast
qed

theorem reconnect_backoff_witness:
  "startWithReconnect (\<lambda>k. if k < 3 then Fails False False else Connects) 0
       \<lparr>isReconnecting = False, reconnectAttempts = 0, shouldStop = False\<rparr> [] =
     (Serving, \<lparr>isReconnecting = False, reconnectAttempts = 0, shouldStop = False\<rparr>,
      [2000, 4000, 8000])
   \<and> startWithReconnect (\<lambda>k. Fails False False) 0
       \<lparr>isReconnecting = False, reconnectAttempts = 0, shouldStop = False\<rparr> [] =
     (Fatal ''WebSocket connection failed after 20 attempts'',
      \<lparr>isReconnecting = True, reconnectAttempts = 20, shouldStop = False\<rparr>,
      [2000, 4000, 8000, 16000, 32000, 60000, 60000, 60000, 60000, 60000, 60000, 60000,
       60000, 60000, 60000, 60000, 60000, 60000, 60000])"
proof -
  let ?s = "\<lparr>isReconnecting = False, reconnectAttempts = 0, shouldStop = False\<rparr>"
  let ?e1 = "\<lambda>k::nat. if k < 3 then Fails False False else Connects"
  let ?e2 = "\<lambda>k::nat. Fails False False"
  have h1: "\<not> shouldStop ?s" and h2: "reconnectAttempts ?s = 0"
    by simp_all
  have f1: "\<forall>i<3. ?e1 i = Fails False False" and f2: "\<forall>i<20. ?e2 i = Fails False False"
    by simp_all
  have c1: "(3::nat) < 20 \<and> ?e1 3 = Connects"
    by simp
  have l1: "map calculateBackoffDelay [1 ..< Suc 3] = [2000, 4000, 8000]"
    by (simp add: calculateBackoffDelay_def RECONNECT_BASE_DELAY_MS_def
        RECONNECT_MAX_DELAY_MS_def upt_conv_Cons)
  have l2: "map calculateBackoffDelay [1 ..< 20] =
      [2000, 4000, 8000, 16000, 32000, 60000, 60000, 60000, 60000, 60000, 60000, 60000,
       60000, 60000, 60000, 60000, 60000, 60000, 60000]"
    by code_simp
  from reconnect_backoff [OF h1 h2 f1, of 0] c1 l1
  have w1: "startWithReconnect ?e1 0 ?s [] = (Serving, ?s, [2000, 4000, 8000])"
    by simp
  from reconnect_backoff [OF h1 h2 f2, of 0] l2
  have w2: "startWithReconnect ?e2 0 ?s [] =
      (Fatal ''WebSocket connection failed after 20 attempts'',
       \<lparr>isReconnecting = True, reconnectAttempts = 20, shouldStop = False\<rparr>,
      [2000, 4000, 8000, 16000, 32000, 60000, 60000, 60000, 60000, 60000, 60000, 60000,
       60000, 60000, 60000, 60000, 60000, 60000, 60000])"
    by simp
  from w1 w2 show ?thesis by simp
qed

section \<open>Properties of the per-chat queue\<close>

lemma queuedJobs_append [simp]: "queuedJobs (a @ b) = queuedJobs a @ queuedJobs b"
  by (simp add: queuedJobs_def)

lemma shiftedJobs_append [simp]: "shiftedJobs (a @ b) = shiftedJobs a @ shiftedJobs b"
  by (simp add: shiftedJobs_def)

lemma rejectedJobs_append [simp]: "rejectedJobs (a @ b) = rejectedJobs a @ rejectedJobs b"
  by (simp add: rejectedJobs_def)

lemma loggedErrors_append [simp]: "loggedErrors (a @ b) = loggedErrors a @ loggedErrors b"
  by (simp add: loggedErrors_def)

lemma settledJobs_append [simp]: "settledJobs (a @ b) = settledJobs a @ settledJobs b"
  by (simp add: settledJobs_def)

lemma queuedJobs_simps [simp]:
  "queuedJobs [] = []"
  "queuedJobs (e # es) = (case e of Queued c j n \<Rightarrow> [j] | _ \<Rightarrow> []) @ queuedJobs es"
  by (simp_all add: queuedJobs_def)

lemma shiftedJobs_simps [simp]:
  "shiftedJobs [] = []"
  "shiftedJobs (e # es) = (case e of Shifted j \<Rightarrow> [j] | _ \<Rightarrow> []) @ shiftedJobs es"
  by (simp_all add: shiftedJobs_def)

lemma rejectedJobs_simps [simp]:
  "rejectedJobs [] = []"
  "rejectedJobs (e # es) =
     (case e of Settled j r \<Rightarrow> (if r then [j] else []) | _ \<Rightarrow> []) @ rejectedJobs es"
  by (simp_all add: rejectedJobs_def)

lemma loggedErrors_simps [simp]:
  "loggedErrors [] = []"
  "loggedErrors (e # es) = (case e of ErrorLogged j \<Rightarrow> [j] | _ \<Rightarrow> []) @ loggedErrors es"
  by (simp_all add: loggedErrors_def)

lemma settledJobs_simps [simp]:
  "settledJobs [] = []"
  "settledJobs (e # es) = (case e of Settled j r \<Rightarrow> [(j, r)] | _ \<Rightarrow> []) @ settledJobs es"
  by (simp_all add: settledJobs_def)

lemma serial_append: "serial p a \<Longrightarrow> serial None b \<Longrightarrow> serial p (a @ b)"
  by (induction p a rule: serial.induct) auto

text \<open>While a queue is being processed, \<open>enqueueMessage\<close> only pushes.\<close>

lemma enqueueMessage_while_processing:
  "chatQueues st c = Some q \<Longrightarrow> processing q \<Longrightarrow> enqueueMessage c j st = enqueuePush c j st"
  by (simp add: enqueueMessage_def enqueuePush_def Let_def)

text \<open>The arrivals during one handler: pushed in order, nothing else happens.\<close>

lemma fold_enqueuePush:
  "chatQueues st c = Some q \<Longrightarrow>
   \<exists>ext. trace (fold (enqueuePush c) js st) = trace st @ ext
       \<and> chatQueues (fold (enqueuePush c) js st) = (chatQueues st)(c \<mapsto> q\<lparr>messages := messages q @ js\<rparr>)
       \<and> queuedJobs ext = map jobId js \<and> shiftedJobs ext = []
       \<and> rejectedJobs ext = [] \<and> loggedErrors ext = [] \<and> settledJobs ext = []
       \<and> (\<forall>p rest. serial p (ext @ rest) = serial p rest)"
proof (induction js arbitrary: st q)
  case Nil
  then show ?case
    by (auto simp: fun_upd_idem)
next
  case (Cons j js)
  let ?st1 = "enqueuePush c j st"
  let ?e = "Queued c (jobId j) (Suc (length (messages q)))"
  have q1: "chatQueues ?st1 c = Some (q\<lparr>messages := messages q @ [j]\<rparr>)"
    and t1: "trace ?st1 = trace st @ [?e]"
    and m1: "chatQueues ?st1 = (chatQueues st)(c \<mapsto> q\<lparr>messages := messages q @ [j]\<rparr>)"
    using Cons.prems by (simp_all add: enqueuePush_def)
  from Cons.IH [OF q1] obtain ext where
    ext: "trace (fold (enqueuePush c) js ?st1) = trace ?st1 @ ext"
      "chatQueues (fold (enqueuePush c) js ?st1) =
         (chatQueues ?st1)(c \<mapsto> (q\<lparr>messages := messages q @ [j]\<rparr>)\<lparr>messages := messages (q\<lparr>messages := messages q @ [j]\<rparr>) @ js\<rparr>)"
      "queuedJobs ext = map jobId js" "shiftedJobs ext = []"
      "rejectedJobs ext = []" "loggedErrors ext = []" "settledJobs ext = []"
      "\<forall>p rest. serial p (ext @ rest) = serial p rest"
    by blast
  show ?case
  proof (intro exI [of _ "?e # ext"] conjI)
    show "trace (fold (enqueuePush c) (j # js) st) = trace st @ ?e # ext"
      using ext(1) t1 by simp
    show "chatQueues (fold (enqueuePush c) (j # js) st) =
        (chatQueues st)(c \<mapsto> q\<lparr>messages := messages q @ j # js\<rparr>)"
      using ext(2) m1 by simp
    show "queuedJobs (?e # ext) = map jobId (j # js)"
      using ext(3) by simp
    show "shiftedJobs (?e # ext) = []"
      using ext(4) by simp
    show "rejectedJobs (?e # ext) = []"
      using ext(5) by simp
    show "loggedErrors (?e # ext) = []"
      using ext(6) by simp
    show "settledJobs (?e # ext) = []"
      using ext(7) by simp
    show "\<forall>p rest. serial p ((?e # ext) @ rest) = serial p rest"
      using ext(8) by simp
  qed
qed

text \<open>
  The loop, from any queue being processed: it ends with the queue empty, and what it adds
  to the trace takes the handlers off in first-in-first-out order (the queue, then the
  arrivals in the order they were queued), awaits each before the next, and logs an error
  for each that rejected.
\<close>

lemma drainLoop_trace:
  "chatQueues st c = Some q \<Longrightarrow>
   \<exists>ext. trace (drainLoop c st) = trace st @ ext
       \<and> chatQueues (drainLoop c st) = (chatQueues st)(c \<mapsto> q\<lparr>messages := []\<rparr>)
       \<and> shiftedJobs ext = map jobId (messages q) @ queuedJobs ext
       \<and> shiftedJobs ext = map jobId (runOrder (messages q))
       \<and> settledJobs ext = map (\<lambda>x. (jobId x, throws x)) (runOrder (messages q))
       \<and> loggedErrors ext = map jobId (filter throws (runOrder (messages q)))
       \<and> serial None ext
       \<and> loggedErrors ext = rejectedJobs ext"
proof (induction c st arbitrary: q rule: drainLoop.induct)
  case (1 c st)
  show ?case
  proof (cases "messages q")
    case Nil
    then have "drainLoop c st = st"
      using "1.prems" by (subst drainLoop.simps) simp
    moreover have "(chatQueues st)(c \<mapsto> q\<lparr>messages := []\<rparr>) = chatQueues st"
      using "1.prems" Nil by (auto simp: fun_upd_idem)
    ultimately show ?thesis
      using Nil by auto
  next
    case (Cons item rest)
    define st1 where "st1 = st\<lparr>chatQueues := (chatQueues st)(c \<mapsto> q\<lparr>messages := rest\<rparr>),
                             trace := trace st @ [Shifted (jobId item)]\<rparr>"
    define st2 where "st2 = fold (enqueuePush c) (arrivals item) st1"
    define tl where "tl = [Settled (jobId item) (throws item)]
                                  @ (if throws item then [ErrorLogged (jobId item)] else [])"
    define st3 where "st3 = st2\<lparr>trace := trace st2 @ tl\<rparr>"
    have unfold: "drainLoop c st = drainLoop c st3"
      using "1.prems" Cons
      by (subst drainLoop.simps) (simp add: st1_def st2_def st3_def tl_def Let_def)
    have q1: "chatQueues st1 c = Some (q\<lparr>messages := rest\<rparr>)"
      by (simp add: st1_def)
    from fold_enqueuePush [OF q1, of "arrivals item"] obtain qe where
      qe: "trace st2 = trace st1 @ qe"
        "chatQueues st2 = (chatQueues st1)(c \<mapsto> q\<lparr>messages := rest @ arrivals item\<rparr>)"
        "queuedJobs qe = map jobId (arrivals item)" "shiftedJobs qe = []"
        "rejectedJobs qe = []" "loggedErrors qe = []" "settledJobs qe = []"
        "\<forall>p rest. serial p (qe @ rest) = serial p rest"
      unfolding st2_def by auto
    have q3: "chatQueues st3 c = Some (q\<lparr>messages := rest @ arrivals item\<rparr>)"
      using qe(2) by (simp add: st3_def)
    from "1.IH" [OF "1.prems" Cons st1_def st2_def _ q3] obtain ext3 where
      ext3: "trace (drainLoop c st3) = trace st3 @ ext3"
        "chatQueues (drainLoop c st3) =
           (chatQueues st3)(c \<mapsto> (q\<lparr>messages := rest @ arrivals item\<rparr>)\<lparr>messages := []\<rparr>)"
        "shiftedJobs ext3 = map jobId (messages (q\<lparr>messages := rest @ arrivals item\<rparr>)) @ queuedJobs ext3"
        "shiftedJobs ext3 = map jobId (runOrder (messages (q\<lparr>messages := rest @ arrivals item\<rparr>)))"
        "settledJobs ext3 =
           map (\<lambda>x. (jobId x, throws x)) (runOrder (messages (q\<lparr>messages := rest @ arrivals item\<rparr>)))"
        "loggedErrors ext3 =
           map jobId (filter throws (runOrder (messages (q\<lparr>messages := rest @ arrivals item\<rparr>))))"
        "serial None ext3" "loggedErrors ext3 = rejectedJobs ext3"
      unfolding st3_def tl_def by blast
    let ?ext = "Shifted (jobId item) # qe @ tl @ ext3"
    show ?thesis
    proof (intro exI [of _ ?ext] conjI)
      show "trace (drainLoop c st) = trace st @ ?ext"
        using unfold ext3(1) qe(1) by (simp add: st3_def st1_def)
      show "chatQueues (drainLoop c st) = (chatQueues st)(c \<mapsto> q\<lparr>messages := []\<rparr>)"
        using unfold ext3(2) qe(2) by (simp add: st3_def st1_def)
      show "shiftedJobs ?ext = map jobId (messages q) @ queuedJobs ?ext"
        using ext3(3) qe(3,4) Cons by (simp add: tl_def)
      show "shiftedJobs ?ext = map jobId (runOrder (messages q))"
        using ext3(4) qe(4) Cons by (simp add: tl_def)
      show "settledJobs ?ext = map (\<lambda>x. (jobId x, throws x)) (runOrder (messages q))"
        using ext3(5) qe(7) Cons by (simp add: tl_def)
      show "loggedErrors ?ext = map jobId (filter throws (runOrder (messages q)))"
        using ext3(6) qe(6) Cons by (simp add: tl_def)
      have "serial (Some (jobId item)) (tl @ ext3)"
        using ext3(7) by (simp add: tl_def)
      then show "serial None ?ext"
        using qe(8) by simp
      show "loggedErrors ?ext = rejectedJobs ?ext"
        using ext3(8) qe(5,6) by (simp add: tl_def)
    qed
  qed
qed

text \<open>
  Claim C7. Enqueueing a handler \<open>j\<close> for a conversation that has no queue logs it as
  queued, starts the drain loop, and by the time the loop is over: \<open>j\<close> and every handler
  that arrived meanwhile were queued, taken off the queue and awaited, all in the same
  first-in-first-out order, which begins with \<open>j\<close>; no handler was taken off the queue
  before the previous one had settled; every handler settled with its own outcome, an error
  was logged for exactly those that rejected, and the ones queued behind them still ran;
  the completion was logged last; and the conversation's entry is gone from the map, the
  other conversations' entries being untouched. While a conversation's queue is being
  processed, enqueueing only appends the handler and logs it, and a further call of
  \<open>processQueue\<close> does nothing, so no second loop starts.
\<close>

theorem serial_queue:
  "(chatQueues st c = None \<longrightarrow>
     (let st' = enqueueMessage c j st;
          new = drop (length (trace st)) (trace st')
      in trace st' = trace st @ new
       \<and> take 2 new = [Queued c (jobId j) 1, Starting c]
       \<and> last new = Completed c
       \<and> hd (runOrder [j]) = j
       \<and> queuedJobs new = map jobId (runOrder [j])
       \<and> shiftedJobs new = map jobId (runOrder [j])
       \<and> settledJobs new = map (\<lambda>x. (jobId x, throws x)) (runOrder [j])
       \<and> loggedErrors new = map jobId (filter throws (runOrder [j]))
       \<and> shiftedJobs new = queuedJobs new
       \<and> serial None new
       \<and> loggedErrors new = rejectedJobs new
       \<and> chatQueues st' c = None
       \<and> (\<forall>c'. c' \<noteq> c \<longrightarrow> chatQueues st' c' = chatQueues st c')))
   \<and> (chatQueues st c = Some q \<and> processing q \<longrightarrow>
        enqueueMessage c j st =
          st\<lparr>chatQueues := (chatQueues st)(c \<mapsto> q\<lparr>messages := messages q @ [j]\<rparr>),
             trace := trace st @ [Queued c (jobId j) (Suc (length (messages q)))]\<rparr>
      \<and> processQueue c st = st)"
proof -
  have A: "(let st' = enqueueMessage c j st;
          new = drop (length (trace st)) (trace st')
      in trace st' = trace st @ new
       \<and> take 2 new = [Queued c (jobId j) 1, Starting c]
       \<and> last new = Completed c
       \<and> hd (runOrder [j]) = j
       \<and> queuedJobs new = map jobId (runOrder [j])
       \<and> shiftedJobs new = map jobId (runOrder [j])
       \<and> settledJobs new = map (\<lambda>x. (jobId x, throws x)) (runOrder [j])
       \<and> loggedErrors new = map jobId (filter throws (runOrder [j]))
       \<and> shiftedJobs new = queuedJobs new
       \<and> serial None new
       \<and> loggedErrors new = rejectedJobs new
       \<and> chatQueues st' c = None
       \<and> (\<forall>c'. c' \<noteq> c \<longrightarrow> chatQueues st' c' = chatQueues st c'))"
    if none: "chatQueues st c = None"
  proof -
    let ?q = "\<lparr>messages = [j], processing = False\<rparr>"
    define st0 where "st0 = enqueuePush c j st"
    define st1 where "st1 = st0\<lparr>chatQueues := (chatQueues st0)(c \<mapsto> ?q\<lparr>processing := True\<rparr>),
                            trace := trace st0 @ [Starting c]\<rparr>"
    have q0: "chatQueues st0 = (chatQueues st)(c \<mapsto> ?q)"
      and t0: "trace st0 = trace st @ [Queued c (jobId j) 1]"
      using none by (simp_all add: st0_def enqueuePush_def)
    have q1: "chatQueues st1 c = Some (?q\<lparr>processing := True\<rparr>)"
      by (simp add: st1_def)
    from drainLoop_trace [OF q1] obtain ext where
      ext: "trace (drainLoop c st1) = trace st1 @ ext"
        "chatQueues (drainLoop c st1) = (chatQueues st1)(c \<mapsto> (?q\<lparr>processing := True\<rparr>)\<lparr>messages := []\<rparr>)"
        "shiftedJobs ext = map jobId (messages (?q\<lparr>processing := True\<rparr>)) @ queuedJobs ext"
        "shiftedJobs ext = map jobId (runOrder (messages (?q\<lparr>processing := True\<rparr>)))"
        "settledJobs ext = map (\<lambda>x. (jobId x, throws x)) (runOrder (messages (?q\<lparr>processing := True\<rparr>)))"
        "loggedErrors ext = map jobId (filter throws (runOrder (messages (?q\<lparr>processing := True\<rparr>))))"
        "serial None ext" "loggedErrors ext = rejectedJobs ext"
      by blast
    let ?new = "Queued c (jobId j) 1 # Starting c # ext @ [Completed c]"
    have res: "enqueueMessage c j st =
        (drainLoop c st1)\<lparr>chatQueues := (chatQueues st)(c := None),
                           trace := trace st @ ?new\<rparr>"
      using q0 t0 ext(1,2)
      by (simp add: enqueueMessage_def processQueue_def Let_def st0_def [symmetric]
          st1_def [symmetric]) (simp add: st1_def)
    have "serial None (ext @ [Completed c])"
      using ext(7) by (intro serial_append) simp_all
    then have s: "serial None ?new"
      by simp
    have sq: "shiftedJobs ?new = queuedJobs ?new"
      using ext(3) by simp
    have sh: "shiftedJobs ?new = map jobId (runOrder [j])"
      using ext(4) by simp
    have se: "settledJobs ?new = map (\<lambda>x. (jobId x, throws x)) (runOrder [j])"
      using ext(5) by simp
    have lo: "loggedErrors ?new = map jobId (filter throws (runOrder [j]))"
      using ext(6) by simp
    have lr: "loggedErrors ?new = rejectedJobs ?new"
      using ext(8) by simp
    have la: "last ?new = Completed c"
      by simp
    show ?thesis
      unfolding Let_def res
      using none s sq sh se lo lr la sq [symmetric] by (simp del: shiftedJobs_simps queuedJobs_simps
          settledJobs_simps loggedErrors_simps rejectedJobs_simps serial.simps last.simps)
  qed
  have B: "enqueueMessage c j st =
          st\<lparr>chatQueues := (chatQueues st)(c \<mapsto> q\<lparr>messages := messages q @ [j]\<rparr>),
             trace := trace st @ [Queued c (jobId j) (Suc (length (messages q)))]\<rparr>
      \<and> processQueue c st = st"
    if "chatQueues st c = Some q" "processing q"
    using that by (simp add: enqueueMessage_def enqueuePush_def processQueue_def Let_def)
  from A B show ?thesis by blast
qed

theorem serial_queue_witness:
  "trace (enqueueMessage ''oc_1'' (Job 1 False [Job 2 True [Job 4 False []], Job 3 False []])
            \<lparr>chatQueues = Map.empty, trace = []\<rparr>) =
     [Queued ''oc_1'' 1 1, Starting ''oc_1'',
      Shifted 1, Queued ''oc_1'' 2 1, Queued ''oc_1'' 3 2, Settled 1 False,
      Shifted 2, Queued ''oc_1'' 4 2, Settled 2 True, ErrorLogged 2,
      Shifted 3, Settled 3 False,
      Shifted 4, Settled 4 False,
      Completed ''oc_1'']
   \<and> shiftedJobs (trace (enqueueMessage ''oc_1'' (Job 1 False [Job 2 True [Job 4 False []], Job 3 False []])
            \<lparr>chatQueues = Map.empty, trace = []\<rparr>)) = [1, 2, 3, 4]
   \<and> map jobId (runOrder [Job 1 False [Job 2 True [Job 4 False []], Job 3 False []]]) = [1, 2, 3, 4]
   \<and> chatQueues (enqueueMessage ''oc_1'' (Job 1 False [Job 2 True [Job 4 False []], Job 3 False []])
            \<lparr>chatQueues = Map.empty, trace = []\<rparr>) ''oc_1'' = None
   \<and> enqueueMessage ''oc_1'' (Job 5 False [])
        \<lparr>chatQueues = [''oc_1'' \<mapsto> \<lparr>messages = [Job 4 False []], processing = True\<rparr>], trace = []\<rparr> =
      \<lparr>chatQueues = [''oc_1'' \<mapsto> \<lparr>messages = [Job 4 False [], Job 5 False []], processing = True\<rparr>],
        trace = [Queued ''oc_1'' 5 2]\<rparr>"
proof -
  let ?st = "\<lparr>chatQueues = Map.empty, trace = []\<rparr>"
  let ?j = "Job 1 False [Job 2 True [Job 4 False []], Job 3 False []]"
  let ?q = "\<lparr>messages = [Job 4 False []], processing = True\<rparr>"
  let ?busy = "\<lparr>chatQueues = [''oc_1'' \<mapsto> ?q], trace = []\<rparr>"
  have h: "chatQueues ?st ''oc_1'' = None"
    by simp
  have hb: "chatQueues ?busy ''oc_1'' = Some ?q \<and> processing ?q"
    by simp
  have t: "trace (enqueueMessage ''oc_1'' ?j ?st) =
     [Queued ''oc_1'' 1 1, Starting ''oc_1'',
      Shifted 1, Queued ''oc_1'' 2 1, Queued ''oc_1'' 3 2, Settled 1 False,
      Shifted 2, Queued ''oc_1'' 4 2, Settled 2 True, ErrorLogged 2,
      Shifted 3, Settled 3 False,
      Shifted 4, Settled 4 False,
      Completed ''oc_1'']"
    by (simp add: enqueueMessage_def processQueue_def drainLoop.simps enqueuePush_def Let_def)
  have r: "map jobId (runOrder [?j]) = [1, 2, 3, 4]"
    by simp
  from serial_queue [of ?st "''oc_1''" ?j] h t r
  have a: "shiftedJobs (trace (enqueueMessage ''oc_1'' ?j ?st)) = [1, 2, 3, 4]
      \<and> chatQueues (enqueueMessage ''oc_1'' ?j ?st) ''oc_1'' = None"
    by (simp add: Let_def)
  from serial_queue [of ?busy "''oc_1''" "Job 5 False []" ?q] hb
  have b: "enqueueMessage ''oc_1'' (Job 5 False []) ?busy =
      \<lparr>chatQueues = [''oc_1'' \<mapsto> \<lparr>messages = [Job 4 False [], Job 5 False []], processing = True\<rparr>],
        trace = [Queued ''oc_1'' 5 2]\<rparr>"
    by simp
  from t a r b show ?thesis
    by simp
qed

section \<open>Properties of the message event handler\<close>

lemma receiveMessage_no_key:
  assumes "event_id ev = None" "messageField message_id ev = None"
  shows "processedEvents (snd (receiveMessage now ev g)) = processedEvents g"
    and "fst (receiveMessage now ev g) \<noteq> SkipDuplicate k"
  using assms
  by (auto simp: receiveMessage_def Let_def split: option.splits prod.splits if_splits)

lemma receiveMessage_no_time:
  assumes "event_id ev = None" "messageField message_id ev = None"
    "truthyNumber (messageField create_time ev) = None"
  shows "fst (receiveMessage now ev g) =
           Enqueue (case messageField chat_id ev of Some c \<Rightarrow> c | None \<Rightarrow> ''unknown'')"
  using assms
  by (auto simp: receiveMessage_def Let_def split: option.splits prod.splits if_splits)

lemma receiveMessage_redelivery_stale:
  assumes "event_id ev = None" "messageField message_id ev = None"
    "truthyString (messageField chat_id ev) = Some c"
    "truthyNumber (messageField create_time ev) = Some t"
    "fst (receiveMessage now ev g) = Enqueue q"
  shows "fst (receiveMessage now' ev (snd (receiveMessage now ev g))) = SkipStaleWatermark c"
proof -
  have g': "snd (receiveMessage now ev g) = g\<lparr>chatWatermarks := updateWatermark (chatWatermarks g) c t\<rparr>"
    using assms
    by (auto simp: receiveMessage_def Let_def split: option.splits prod.splits if_splits)
  have "isStaleMessage (updateWatermark (chatWatermarks g) c t) c t"
    by (simp add: isStaleMessage_def getWatermark_update)
  then show ?thesis
    using assms(1-4) unfolding g'
    by (simp add: receiveMessage_def Let_def)
qed

text \<open>
  Claim C10, as stated, fails: an event without \<open>event_id\<close> and \<open>message_id\<close> that carries a
  chat id and a create time is enqueued on its first delivery, and its redelivery is dropped
  by the watermark filter instead of being processed again.
\<close>

theorem redelivery_without_ids_counterexample:
  "event_id \<lparr>event_id = None,
             message = Some \<lparr>message_id = None, chat_id = Some ''oc_1'', create_time = Some 1000\<rparr>\<rparr> = None
   \<and> messageField message_id
        \<lparr>event_id = None,
         message = Some \<lparr>message_id = None, chat_id = Some ''oc_1'', create_time = Some 1000\<rparr>\<rparr> = None
   \<and> fst (receiveMessage 2000
        \<lparr>event_id = None,
         message = Some \<lparr>message_id = None, chat_id = Some ''oc_1'', create_time = Some 1000\<rparr>\<rparr>
        \<lparr>processedEvents = Map.empty, chatWatermarks = Map.empty\<rparr>) = Enqueue ''oc_1''
   \<and> fst (receiveMessage 2001
        \<lparr>event_id = None,
         message = Some \<lparr>message_id = None, chat_id = Some ''oc_1'', create_time = Some 1000\<rparr>\<rparr>
        (snd (receiveMessage 2000
          \<lparr>event_id = None,
           message = Some \<lparr>message_id = None, chat_id = Some ''oc_1'', create_time = Some 1000\<rparr>\<rparr>
          \<lparr>processedEvents = Map.empty, chatWatermarks = Map.empty\<rparr>))) = SkipStaleWatermark ''oc_1''"
  by (simp add: receiveMessage_def messageField_def Let_def isStaleMessage_def getWatermark_def
      updateWatermark_def MAX_MESSAGE_AGE_MS_def)

text \<open>
  Claim C10, amended. For an event in which both \<open>event_id\<close> and \<open>message.message_id\<close> are
  absent the handler makes no deduplication check: whatever the maps hold, the dedup map is
  left as it was and the delivery is not skipped as a duplicate. Whether a redelivery is
  processed again is decided by the later stages: without a usable create time every
  delivery is enqueued; with a chat id and a create time, once a delivery has been enqueued
  its redelivery is rejected by the watermark filter.
\<close>

theorem delivery_without_ids:
  "event_id ev = None \<Longrightarrow> messageField message_id ev = None \<Longrightarrow>
     processedEvents (snd (receiveMessage now ev g)) = processedEvents g
   \<and> (\<forall>k. fst (receiveMessage now ev g) \<noteq> SkipDuplicate k)
   \<and> (truthyNumber (messageField create_time ev) = None \<longrightarrow>
        fst (receiveMessage now ev g) =
          Enqueue (case messageField chat_id ev of Some c \<Rightarrow> c | None \<Rightarrow> ''unknown''))
   \<and> (truthyString (messageField chat_id ev) = Some c
        \<and> truthyNumber (messageField create_time ev) = Some t
        \<and> fst (receiveMessage now ev g) = Enqueue q \<longrightarrow>
        fst (receiveMessage now' ev (snd (receiveMessage now ev g))) = SkipStaleWatermark c)"
  using receiveMessage_no_key [of ev now g] receiveMessage_no_time [of ev now g]
    receiveMessage_redelivery_stale [of ev c t now g q now']
  by blast

theorem delivery_without_ids_witness:
  "fst (receiveMessage 2000
        \<lparr>event_id = None,
         message = Some \<lparr>message_id = None, chat_id = Some ''oc_1'', create_time = None\<rparr>\<rparr>
        \<lparr>processedEvents = Map.empty, chatWatermarks = [''oc_1'' \<mapsto> 5000]\<rparr>) = Enqueue ''oc_1''
   \<and> processedEvents (snd (receiveMessage 2000
        \<lparr>event_id = None,
         message = Some \<lparr>message_id = None, chat_id = Some ''oc_1'', create_time = None\<rparr>\<rparr>
        \<lparr>processedEvents = Map.empty, chatWatermarks = [''oc_1'' \<mapsto> 5000]\<rparr>)) = Map.empty
   \<and> fst (receiveMessage 2001
        \<lparr>event_id = None,
         message = Some \<lparr>message_id = None, chat_id = Some ''oc_1'', create_time = Some 1000\<rparr>\<rparr>
        (snd (receiveMessage 2000
          \<lparr>event_id = None,
           message = Some \<lparr>message_id = None, chat_id = Some ''oc_1'', create_time = Some 1000\<rparr>\<rparr>
          \<lparr>processedEvents = Map.empty, chatWatermarks = Map.empty\<rparr>))) = SkipStaleWatermark ''oc_1''"
proof -
  let ?a = "\<lparr>event_id = None,
         message = Some \<lparr>message_id = None, chat_id = Some ''oc_1'', create_time = None\<rparr>\<rparr>"
  let ?b = "\<lparr>event_id = None,
         message = Some \<lparr>message_id = None, chat_id = Some ''oc_1'', create_time = Some 1000\<rparr>\<rparr>"
  let ?ga = "\<lparr>processedEvents = Map.empty, chatWatermarks = [''oc_1'' \<mapsto> 5000]\<rparr>"
  let ?gb = "\<lparr>processedEvents = Map.empty, chatWatermarks = Map.empty\<rparr>"
  have a1: "event_id ?a = None" and a2: "messageField message_id ?a = None"
    and a3: "truthyNumber (messageField create_time ?a) = None"
    by (simp_all add: messageField_def)
  have b1: "event_id ?b = None" and b2: "messageField message_id ?b = None"
    and b3: "truthyString (messageField chat_id ?b) = Some ''oc_1''"
    and b4: "truthyNumber (messageField create_time ?b) = Some 1000"
    by (simp_all add: messageField_def)
  have b5: "fst (receiveMessage 2000 ?b ?gb) = Enqueue ''oc_1''"
    by (simp add: receiveMessage_def messageField_def Let_def isStaleMessage_def getWatermark_def
        MAX_MESSAGE_AGE_MS_def)
  from delivery_without_ids [OF a1 a2, of 2000 ?ga] a3
  have "fst (receiveMessage 2000 ?a ?ga) = Enqueue ''oc_1''"
    and "processedEvents (snd (receiveMessage 2000 ?a ?ga)) = Map.empty"
    by (simp_all add: messageField_def)
  moreover from delivery_without_ids [OF b1 b2, of 2000 ?gb "''oc_1''" 1000 "''oc_1''" 2001] b3 b4 b5
  have "fst (receiveMessage 2001 ?b (snd (receiveMessage 2000 ?b ?gb))) = SkipStaleWatermark ''oc_1''"
    by blast
  ultimately show ?thesis
    by blast
qed

section \<open>Properties of the message batcher\<close>

lemma clearTimers_filter:
  "snd (clearTimers st ts) =
     filter (\<lambda>t. debounceTimer st \<noteq> Some (timerId t) \<and> idleTimer st \<noteq> Some (timerId t)) ts"
  "fst (clearTimers st ts) = st\<lparr>debounceTimer := None, idleTimer := None\<rparr>"
  by (auto simp: clearTimers_def clearTimeout_def Let_def split: option.splits prod.splits
      intro!: filter_cong)

lemma clearTimers_eq:
  "clearTimers st ts =
     (st\<lparr>debounceTimer := None, idleTimer := None\<rparr>,
      filter (\<lambda>t. debounceTimer st \<noteq> Some (timerId t) \<and> idleTimer st \<noteq> Some (timerId t)) ts)"
  using clearTimers_filter [of st ts] by (simp add: prod_eq_iff)

lemma push_effect:
  "timers (push m s) =
     filter (\<lambda>t. idleTimer (stateOf s (chatId m)) \<noteq> Some (timerId t)) (timers s)
       @ [\<lparr>timerId = nextTimerId s, fireAt = clock s + IDLE_THRESHOLD_MS, callback = IdleCb (chatId m)\<rparr>]"
  "map_of (chatStates (push m s)) =
     (map_of (chatStates s))(chatId m \<mapsto>
        (stateOf s (chatId m))\<lparr>buffer := buffer (stateOf s (chatId m)) @ [m], lastMessageAt := clock s,
                                idleTimer := Some (nextTimerId s)\<rparr>)"
  "calls (push m s) = calls s" "flushCallback (push m s) = flushCallback s"
  "clock (push m s) = clock s" "startedAt (push m s) = startedAt s"
  by (auto simp: push_def getOrCreateState_def startIdleTimer_def setTimeout_def clearTimeout_def
      stateOf_def newState_def Let_def update_conv' split: option.splits intro!: filter_cong)

lemma trigger_effect:
  "timers (trigger c trg s) =
     filter (\<lambda>t. debounceTimer (stateOf s c) \<noteq> Some (timerId t)) (timers s)
       @ [\<lparr>timerId = nextTimerId s, fireAt = clock s + DEBOUNCE_MS, callback = DebounceCb c trg\<rparr>]"
  "map_of (chatStates (trigger c trg s)) =
     (map_of (chatStates s))(c \<mapsto>
        (stateOf s c)\<lparr>hasTrigger := True, triggerId := Some trg,
                       debounceTimer := Some (nextTimerId s)\<rparr>)"
  "calls (trigger c trg s) = calls s" "flushCallback (trigger c trg s) = flushCallback s"
  "clock (trigger c trg s) = clock s" "startedAt (trigger c trg s) = startedAt s"
  by (auto simp: trigger_def getOrCreateState_def startDebounceTimer_def setTimeout_def clearTimeout_def
      stateOf_def newState_def Let_def update_conv' split: option.splits intro!: filter_cong)

lemma flushReset_effect:
  assumes "flushReset c trg s = Some (e, s2)"
  shows "\<exists>st. map_of (chatStates s) c = Some st \<and> buffer st \<noteq> []
      \<and> e = \<lparr>ev_chatId = c, ev_messages = buffer st, triggeredBy = trg, triggeredAt = clock s\<rparr>
      \<and> timers s2 = filter (\<lambda>t. debounceTimer st \<noteq> Some (timerId t) \<and> idleTimer st \<noteq> Some (timerId t)) (timers s)
      \<and> map_of (chatStates s2) = (map_of (chatStates s))(c \<mapsto>
           st\<lparr>buffer := [], hasTrigger := False, triggerId := None, debounceTimer := None, idleTimer := None\<rparr>)
      \<and> calls s2 = calls s \<and> flushCallback s2 = flushCallback s \<and> clock s2 = clock s
      \<and> startedAt s2 = startedAt s"
  using assms
  by (auto simp: flushReset_def clearTimers_eq Let_def update_conv' split: option.splits if_splits)

lemma ownedI: "(\<And>t. t \<in> set (timers s) \<Longrightarrow> owner_ok s t) \<Longrightarrow> owned s"
  by (simp add: owned_def list_all_iff)

lemma ownedD: "owned s \<Longrightarrow> t \<in> set (timers s) \<Longrightarrow> owner_ok s t"
  by (simp add: owned_def list_all_iff)

lemma owned_subset:
  assumes "owned s" "chatStates s' = chatStates s" "set (timers s') \<subseteq> set (timers s)"
  shows "owned s'"
proof (rule ownedI)
  fix t assume "t \<in> set (timers s')"
  with assms(3) have "t \<in> set (timers s)" by blast
  with assms(1) have "owner_ok s t" by (rule ownedD)
  then show "owner_ok s' t"
    unfolding owner_ok_def assms(2) .
qed

lemma owned_create: "owned (createChatBatcher a b)"
  by (simp add: owned_def createChatBatcher_def)

lemma owned_onFlush: "owned s \<Longrightarrow> owned (onFlush cb s)"
  by (erule owned_subset) (simp_all add: onFlush_def)

lemma owned_push: "owned s \<Longrightarrow> owned (push m s)"
proof (rule ownedI)
  fix t assume o: "owned s" and t: "t \<in> set (timers (push m s))"
  show "owner_ok (push m s) t"
  proof (cases "t \<in> set (timers s)")
    case True
    with o have "owner_ok s t" by (rule ownedD)
    with t True show ?thesis
      by (auto simp: owner_ok_def push_effect stateOf_def split: timer_callback.splits option.splits)
  next
    case False
    with t show ?thesis
      by (auto simp: owner_ok_def push_effect)
  qed
qed

lemma owned_trigger: "owned s \<Longrightarrow> owned (trigger c trg s)"
proof (rule ownedI)
  fix t assume o: "owned s" and t: "t \<in> set (timers (trigger c trg s))"
  show "owner_ok (trigger c trg s) t"
  proof (cases "t \<in> set (timers s)")
    case True
    with o have "owner_ok s t" by (rule ownedD)
    with t True show ?thesis
      by (auto simp: owner_ok_def trigger_effect stateOf_def split: timer_callback.splits option.splits)
  next
    case False
    with t show ?thesis
      by (auto simp: owner_ok_def trigger_effect)
  qed
qed

lemma owned_clear: "owned s \<Longrightarrow> owned (clear c s)"
proof (rule ownedI)
  fix t assume o: "owned s" and t: "t \<in> set (timers (clear c s))"
  then have "t \<in> set (timers s)"
    by (auto simp: clear_def clearTimers_eq split: option.splits)
  with o have "owner_ok s t" by (rule ownedD)
  with t show "owner_ok (clear c s) t"
    by (auto simp: owner_ok_def clear_def clearTimers_eq delete_conv'
        split: timer_callback.splits option.splits)
qed

lemma owned_flushReset: "owned s \<Longrightarrow> flushReset c trg s = Some (e, s2) \<Longrightarrow> owned s2"
proof (rule ownedI)
  fix t assume o: "owned s" and f: "flushReset c trg s = Some (e, s2)" and t: "t \<in> set (timers s2)"
  from flushReset_effect [OF f] obtain st where
    st: "map_of (chatStates s) c = Some st"
      "timers s2 = filter (\<lambda>t. debounceTimer st \<noteq> Some (timerId t) \<and> idleTimer st \<noteq> Some (timerId t)) (timers s)"
      "map_of (chatStates s2) = (map_of (chatStates s))(c \<mapsto>
           st\<lparr>buffer := [], hasTrigger := False, triggerId := None, debounceTimer := None, idleTimer := None\<rparr>)"
    by blast
  from t st(2) have ts: "t \<in> set (timers s)" by simp
  with o have "owner_ok s t" by (rule ownedD)
  with t st show "owner_ok s2 t"
    by (auto simp: owner_ok_def split: timer_callback.splits option.splits)
qed

lemma owned_invokeCallback: "owned s \<Longrightarrow> owned (invokeCallback e s)"
  by (erule owned_subset) (simp_all add: invokeCallback_def split: option.splits)

lemma owned_flush: "owned s \<Longrightarrow> owned (flush c trg s)"
  by (auto simp: flush_def split: option.splits intro: owned_invokeCallback owned_flushReset)

lemma owned_runCallback: "owned s \<Longrightarrow> owned (runCallback cb s)"
  by (auto simp: runCallback_def split: timer_callback.splits option.splits intro: owned_flush)

lemma owned_fireTimer: "owned s \<Longrightarrow> owned (fireTimer t s)"
proof -
  assume o: "owned s"
  have "owned (s\<lparr>clock := max (clock s) (fireAt t), timers := clearTimeout (timerId t) (timers s)\<rparr>)"
    using o by (rule owned_subset) (auto simp: clearTimeout_def)
  then show ?thesis
    unfolding fireTimer_def by (rule owned_runCallback)
qed

lemma owned_runTimers: "owned s \<Longrightarrow> owned (runTimers T s)"
proof (induction T s rule: runTimers.induct)
  case (1 T s)
  show ?case
  proof (cases "nextDue T (timers s)")
    case None
    then show ?thesis
      using owned_subset [OF "1.prems", of "s\<lparr>clock := max (clock s) T\<rparr>"]
      by (subst runTimers.simps) simp
  next
    case (Some t)
    then show ?thesis
      using "1.IH" [OF Some] "1.prems"
      by (subst runTimers.simps) (simp add: owned_fireTimer)
  qed
qed

lemma timers_dispose:
  "timers (dispose s) =
     filter (\<lambda>t. \<forall>st\<in>set (map snd (chatStates s)).
                debounceTimer st \<noteq> Some (timerId t) \<and> idleTimer st \<noteq> Some (timerId t)) (timers s)"
proof -
  have "fold (\<lambda>st ts. snd (clearTimers st ts)) sts ts =
        filter (\<lambda>t. \<forall>st\<in>set sts. debounceTimer st \<noteq> Some (timerId t) \<and> idleTimer st \<noteq> Some (timerId t)) ts"
    for sts ts
    by (induction sts arbitrary: ts) (auto simp: clearTimers_filter intro!: filter_cong)
  then show ?thesis
    by (simp add: dispose_def)
qed

lemma dispose_cancels_all: "owned s \<Longrightarrow> timers (dispose s) = []"
proof -
  assume o: "owned s"
  have "\<exists>st\<in>set (map snd (chatStates s)).
          debounceTimer st = Some (timerId t) \<or> idleTimer st = Some (timerId t)"
    if "t \<in> set (timers s)" for t
  proof -
    from o that have "owner_ok s t" by (rule ownedD)
    then obtain c st where "map_of (chatStates s) c = Some st"
      "debounceTimer st = Some (timerId t) \<or> idleTimer st = Some (timerId t)"
      by (auto simp: owner_ok_def split: timer_callback.splits option.splits)
    moreover from this have "st \<in> set (map snd (chatStates s))"
      by (auto dest!: map_of_SomeD intro: rev_image_eqI)
    ultimately show ?thesis by blast
  qed
  then show ?thesis
    by (auto simp: timers_dispose filter_empty_conv)
qed

lemma owned_dispose: "owned s \<Longrightarrow> owned (dispose s)"
  by (simp add: owned_def dispose_cancels_all)

lemma owned_step: "owned s \<Longrightarrow> owned (step s a)"
  by (cases a) (simp_all add: owned_push owned_trigger owned_clear owned_dispose owned_onFlush
      owned_runTimers)

lemma owned_run: "owned s \<Longrightarrow> owned (run s as)"
  unfolding run_def by (induction as arbitrary: s) (simp_all add: owned_step)

lemma owned_reachable: "owned (run (createChatBatcher started now) as)"
  by (rule owned_run) (rule owned_create)

lemma runTimers_idle: "timers s = [] \<Longrightarrow> runTimers T s = s\<lparr>clock := max (clock s) T\<rparr>"
  by (subst runTimers.simps) (simp add: nextDue_def)

lemma advance_idle:
  "timers s = [] \<Longrightarrow>
   calls (run s (map Advance ds)) = calls s \<and> timers (run s (map Advance ds)) = []
   \<and> chatStates (run s (map Advance ds)) = chatStates s"
  unfolding run_def
  by (induction ds arbitrary: s) (simp_all add: runTimers_idle)

text \<open>
  Claim C9. In any state the batcher can be in, \<open>dispose\<close> leaves no pending timeout and no
  conversation state, and however far time advances afterwards the flush callback is not
  called again.
\<close>

theorem dispose_silences:
  "timers (dispose (run (createChatBatcher started now) as)) = []
   \<and> chatStates (dispose (run (createChatBatcher started now) as)) = []
   \<and> calls (run (dispose (run (createChatBatcher started now) as)) (map Advance ds)) =
       calls (run (createChatBatcher started now) as)"
proof -
  let ?s = "run (createChatBatcher started now) as"
  have t: "timers (dispose ?s) = []"
    by (rule dispose_cancels_all) (rule owned_reachable)
  moreover have "chatStates (dispose ?s) = []" and "calls (dispose ?s) = calls ?s"
    by (simp_all add: dispose_def)
  ultimately show ?thesis
    using advance_idle [OF t, of ds] by simp
qed

lemma flush_effect:
  assumes "flushReset c trg s = Some (e, s2)"
  shows "flush c trg s = invokeCallback e s2"
    and "chatStates (flush c trg s) = chatStates s2"
    and "timers (flush c trg s) = timers s2"
    and "calls (flush c trg s) =
           calls s @ (case flushCallback s of None \<Rightarrow> [] | Some cb \<Rightarrow> [(e, cb e)])"
  using assms flushReset_effect [OF assms]
  by (auto simp: flush_def invokeCallback_def split: option.splits)

lemma flush_noop: "flushReset c trg s = None \<Longrightarrow> flush c trg s = s"
  by (simp add: flush_def)

lemma flush_calls:
  "calls (flush c trg s) = calls s
   \<or> (\<exists>e r. calls (flush c trg s) = calls s @ [(e, r)] \<and> ev_chatId e = c \<and> ev_messages e \<noteq> [])"
proof (cases "flushReset c trg s")
  case None
  then show ?thesis by (simp add: flush_noop)
next
  case (Some p)
  obtain e s2 where p: "p = (e, s2)" by (cases p)
  from flushReset_effect [OF Some [unfolded p]] flush_effect(4) [OF Some [unfolded p]]
  show ?thesis
    by (auto split: option.splits)
qed

lemma runCallback_calls:
  "calls (runCallback cb s) = calls s
   \<or> (\<exists>e r. calls (runCallback cb s) = calls s @ [(e, r)] \<and> ev_chatId e = chatOf cb
            \<and> ev_messages e \<noteq> [])"
  using flush_calls
  by (cases cb) (auto simp: runCallback_def split: option.splits)

lemma fireTimer_calls:
  "calls (fireTimer t s) = calls s
   \<or> (\<exists>e r. calls (fireTimer t s) = calls s @ [(e, r)] \<and> ev_chatId e = chatOf (callback t)
            \<and> ev_messages e \<noteq> [])"
  using runCallback_calls [of "callback t"
      "s\<lparr>clock := max (clock s) (fireAt t), timers := clearTimeout (timerId t) (timers s)\<rparr>"]
  by (simp add: fireTimer_def)

lemma nonemptyCalls_fireTimer: "nonemptyCalls s \<Longrightarrow> nonemptyCalls (fireTimer t s)"
  using fireTimer_calls [of t s] by (auto simp: nonemptyCalls_def)

lemma nonemptyCalls_runTimers: "nonemptyCalls s \<Longrightarrow> nonemptyCalls (runTimers T s)"
proof (induction T s rule: runTimers.induct)
  case (1 T s)
  show ?case
  proof (cases "nextDue T (timers s)")
    case None
    then show ?thesis
      using "1.prems" by (subst runTimers.simps) (simp add: nonemptyCalls_def)
  next
    case (Some t)
    then show ?thesis
      using "1.IH" [OF Some] "1.prems"
      by (subst runTimers.simps) (simp add: nonemptyCalls_fireTimer)
  qed
qed

lemma nonemptyCalls_step: "nonemptyCalls s \<Longrightarrow> nonemptyCalls (step s a)"
  by (cases a)
     (simp_all add: nonemptyCalls_runTimers,
      simp_all add: nonemptyCalls_def push_effect trigger_effect clear_def dispose_def onFlush_def
        split: option.splits)

lemma nonemptyCalls_run: "nonemptyCalls s \<Longrightarrow> nonemptyCalls (run s as)"
  unfolding run_def by (induction as arbitrary: s) (simp_all add: nonemptyCalls_step)

lemma nonemptyCalls_reachable: "nonemptyCalls (run (createChatBatcher started now) as)"
  by (rule nonemptyCalls_run) (simp add: nonemptyCalls_def createChatBatcher_def)

lemma set_timers_flush: "set (timers (flush c trg s)) \<subseteq> set (timers s)"
proof (cases "flushReset c trg s")
  case None
  then show ?thesis by (simp add: flush_noop)
next
  case (Some p)
  obtain e s2 where p: "p = (e, s2)" by (cases p)
  from flushReset_effect [OF Some [unfolded p]] flush_effect(3) [OF Some [unfolded p]]
  show ?thesis by auto
qed

lemma set_timers_fireTimer: "set (timers (fireTimer t s)) \<subseteq> set (timers s)"
proof -
  have "set (timers (runCallback cb s')) \<subseteq> set (timers s')" for cb s'
    using set_timers_flush by (cases cb) (auto simp: runCallback_def split: option.splits)
  from this [of "callback t" "s\<lparr>clock := max (clock s) (fireAt t), timers := clearTimeout (timerId t) (timers s)\<rparr>"]
  show ?thesis
    by (auto simp: fireTimer_def clearTimeout_def)
qed

lemma quiet_runTimers:
  "quiet c s \<Longrightarrow> flushesOf c (runTimers T s) = flushesOf c s"
proof (induction T s rule: runTimers.induct)
  case (1 T s)
  show ?case
  proof (cases "nextDue T (timers s)")
    case None
    then show ?thesis
      by (subst runTimers.simps) (simp add: flushesOf_def flushes_def)
  next
    case (Some t)
    then have t: "t \<in> set (timers s)"
      by (simp add: nextDue_mem)
    with "1.prems" have ne: "chatOf (callback t) \<noteq> c"
      by (simp add: quiet_def list_all_iff)
    have q: "quiet c (fireTimer t s)"
      using "1.prems" set_timers_fireTimer [of t s] by (auto simp: quiet_def list_all_iff)
    have "flushesOf c (fireTimer t s) = flushesOf c s"
      using fireTimer_calls [of t s] ne by (auto simp: flushesOf_def flushes_def)
    with "1.IH" [OF Some q] Some show ?thesis
      by (subst runTimers.simps) simp
  qed
qed

lemma quiet_after_flushReset:
  assumes "owned s" "flushReset c trg s = Some (e, s2)"
  shows "quiet c s2"
proof -
  from flushReset_effect [OF assms(2)] obtain st where
    st: "map_of (chatStates s) c = Some st"
      "timers s2 = filter (\<lambda>t. debounceTimer st \<noteq> Some (timerId t) \<and> idleTimer st \<noteq> Some (timerId t)) (timers s)"
    by blast
  have "chatOf (callback t) \<noteq> c" if "t \<in> set (timers s2)" for t
  proof -
    from that st(2) have "t \<in> set (timers s)" by simp
    with assms(1) have "owner_ok s t" by (rule ownedD)
    with that st show ?thesis
      by (cases "callback t") (auto simp: owner_ok_def)
  qed
  then show ?thesis
    by (simp add: quiet_def list_all_iff)
qed

lemmas batcher_defs =
  run_def flushes_def createChatBatcher_def onFlush_def push_def trigger_def clear_def dispose_def
  getOrCreateState_def startIdleTimer_def startDebounceTimer_def setTimeout_def clearTimeout_def
  clearTimers_def flush_def flushReset_def invokeCallback_def runCallback_def fireTimer_def
  nextDue_def isInStartupPeriod_def runTimers.simps
  IDLE_THRESHOLD_MS_def DEBOUNCE_MS_def STARTUP_WAIT_MS_def Let_def

text \<open>
  Claim C8. Every call the batcher has made to the flush callback carried a non-empty
  message list. And in any state the batcher can be in, when \<open>flush\<close> gets past its guard:
  the captured list is non-empty; the state the callback is called in has the
  conversation's buffer empty, its trigger flag and trigger id cleared, its timer handles
  undefined and none of its timeouts pending; that state is what remains after the call
  whatever the callback's outcome, a rejection included; flushing the conversation again
  does nothing; and the passing of time alone never flushes the conversation again.
\<close>

theorem flush_resets_before_callback:
  "list_all (\<lambda>(e, r). ev_messages e \<noteq> []) (calls (run (createChatBatcher started now) as))
   \<and> (flushReset c trg (run (createChatBatcher started now) as) = Some (event, s2) \<longrightarrow>
        ev_messages event \<noteq> []
      \<and> (\<exists>st. map_of (chatStates s2) c = Some st \<and> buffer st = [] \<and> \<not> hasTrigger st
              \<and> triggerId st = None \<and> debounceTimer st = None \<and> idleTimer st = None)
      \<and> list_all (\<lambda>t. chatOf (callback t) \<noteq> c) (timers s2)
      \<and> flush c trg (run (createChatBatcher started now) as) = invokeCallback event s2
      \<and> chatStates (invokeCallback event s2) = chatStates s2
      \<and> timers (invokeCallback event s2) = timers s2
      \<and> flushReset c trg' (invokeCallback event s2) = None
      \<and> flushesOf c (runTimers T (invokeCallback event s2)) = flushesOf c (invokeCallback event s2))"
proof -
  let ?s = "run (createChatBatcher started now) as"
  have A: "list_all (\<lambda>(e, r). ev_messages e \<noteq> []) (calls ?s)"
    using nonemptyCalls_reachable [of started now as] by (simp add: nonemptyCalls_def)
  have B: "ev_messages event \<noteq> []
      \<and> (\<exists>st. map_of (chatStates s2) c = Some st \<and> buffer st = [] \<and> \<not> hasTrigger st
              \<and> triggerId st = None \<and> debounceTimer st = None \<and> idleTimer st = None)
      \<and> list_all (\<lambda>t. chatOf (callback t) \<noteq> c) (timers s2)
      \<and> flush c trg ?s = invokeCallback event s2
      \<and> chatStates (invokeCallback event s2) = chatStates s2
      \<and> timers (invokeCallback event s2) = timers s2
      \<and> flushReset c trg' (invokeCallback event s2) = None
      \<and> flushesOf c (runTimers T (invokeCallback event s2)) = flushesOf c (invokeCallback event s2)"
    if f: "flushReset c trg ?s = Some (event, s2)"
  proof -
    have o: "owned ?s" by (rule owned_reachable)
    from flushReset_effect [OF f] obtain st where
      st: "map_of (chatStates ?s) c = Some st" "buffer st \<noteq> []"
        "event = \<lparr>ev_chatId = c, ev_messages = buffer st, triggeredBy = trg, triggeredAt = clock ?s\<rparr>"
        "map_of (chatStates s2) = (map_of (chatStates ?s))(c \<mapsto>
           st\<lparr>buffer := [], hasTrigger := False, triggerId := None, debounceTimer := None, idleTimer := None\<rparr>)"
      by blast
    have b1: "ev_messages event \<noteq> []"
      using st(2,3) by simp
    have b2: "\<exists>st. map_of (chatStates s2) c = Some st \<and> buffer st = [] \<and> \<not> hasTrigger st
              \<and> triggerId st = None \<and> debounceTimer st = None \<and> idleTimer st = None"
      using st(4) by simp
    have q: "quiet c s2"
      using o f by (rule quiet_after_flushReset)
    have cs: "chatStates (invokeCallback event s2) = chatStates s2"
      and ts: "timers (invokeCallback event s2) = timers s2"
      by (simp_all add: invokeCallback_def split: option.splits)
    have b7: "flushReset c trg' (invokeCallback event s2) = None"
      using b2 by (auto simp: flushReset_def cs)
    have "quiet c (invokeCallback event s2)"
      using q by (simp add: quiet_def ts)
    then have b8: "flushesOf c (runTimers T (invokeCallback event s2)) = flushesOf c (invokeCallback event s2)"
      by (rule quiet_runTimers)
    from b1 b2 q flush_effect(1) [OF f] cs ts b7 b8 show ?thesis
      by (simp add: quiet_def)
  qed
  from A B show ?thesis by blast
qed

theorem flush_resets_before_callback_witness:
  "flushReset ''oc_1'' ''m1''
      (run (createChatBatcher 0 20000)
         [OnFlush alwaysRejects, Push (msg ''oc_1'' ''m1''), Trigger ''oc_1'' ''m1'']) =
     Some (\<lparr>ev_chatId = ''oc_1'', ev_messages = [msg ''oc_1'' ''m1''], triggeredBy = ''m1'',
             triggeredAt = 20000\<rparr>,
           \<lparr>startedAt = 0, clock = 20000,
             chatStates = [(''oc_1'', \<lparr>buffer = [], hasTrigger = False, triggerId = None,
                                       debounceTimer = None, idleTimer = None,
                                       lastMessageAt = 20000\<rparr>)],
             timers = [], nextTimerId = 2, flushCallback = Some alwaysRejects, calls = []\<rparr>)
   \<and> calls (flush ''oc_1'' ''m1''
      (run (createChatBatcher 0 20000)
         [OnFlush alwaysRejects, Push (msg ''oc_1'' ''m1''), Trigger ''oc_1'' ''m1''])) =
     [(\<lparr>ev_chatId = ''oc_1'', ev_messages = [msg ''oc_1'' ''m1''], triggeredBy = ''m1'',
             triggeredAt = 20000\<rparr>, Rejects)]
   \<and> flushReset ''oc_1'' ''again'' (flush ''oc_1'' ''m1''
      (run (createChatBatcher 0 20000)
         [OnFlush alwaysRejects, Push (msg ''oc_1'' ''m1''), Trigger ''oc_1'' ''m1''])) = None"
proof -
  let ?as = "[OnFlush alwaysRejects, Push (msg ''oc_1'' ''m1''), Trigger ''oc_1'' ''m1'']"
  let ?e = "\<lparr>ev_chatId = ''oc_1'', ev_messages = [msg ''oc_1'' ''m1''], triggeredBy = ''m1'',
             triggeredAt = 20000\<rparr>"
  let ?s2 = "\<lparr>startedAt = 0, clock = 20000,
             chatStates = [(''oc_1'', \<lparr>buffer = [], hasTrigger = False, triggerId = None,
                                       debounceTimer = None, idleTimer = None,
                                       lastMessageAt = 20000\<rparr>)],
             timers = [], nextTimerId = 2, flushCallback = Some alwaysRejects, calls = []\<rparr>"
  have h: "flushReset ''oc_1'' ''m1'' (run (createChatBatcher 0 20000) ?as) = Some (?e, ?s2)"
    by (simp add: batcher_defs msg_def)
  have c: "calls (invokeCallback ?e ?s2) = [(?e, Rejects)]"
    by (simp add: invokeCallback_def alwaysRejects_def)
  from flush_resets_before_callback [of 0 20000 ?as "''oc_1''" "''m1''" ?e ?s2 "''again''"] h c
  show ?thesis
    by simp
qed


text \<open>
  The sibling path: the idle closure asks \<open>isInStartupPeriod\<close> before it flushes, so inside
  the startup window it leaves the batcher as it is, whatever the trigger flag.
\<close>

lemma idle_closure_gated: "isInStartupPeriod s \<Longrightarrow> runCallback (IdleCb c) s = s"
  by (simp add: runCallback_def split: option.splits)








theorem dispose_silences_witness:
  "flushes (run (createChatBatcher 0 0)
      [OnFlush alwaysResolves, Push (msg ''oc_1'' ''m1''), Trigger ''oc_1'' ''m1'', Advance 15000]) =
     [\<lparr>ev_chatId = ''oc_1'', ev_messages = [msg ''oc_1'' ''m1''], triggeredBy = ''m1'',
       triggeredAt = 500\<rparr>]
   \<and> calls (run (dispose (run (createChatBatcher 0 0)
      [OnFlush alwaysResolves, Push (msg ''oc_1'' ''m1''), Trigger ''oc_1'' ''m1'']))
        (map Advance [15000])) = []"
proof -
  have "calls (run (createChatBatcher 0 0)
      [OnFlush alwaysResolves, Push (msg ''oc_1'' ''m1''), Trigger ''oc_1'' ''m1'']) = []"
    by (simp add: batcher_defs msg_def)
  with dispose_silences [of 0 0
      "[OnFlush alwaysResolves, Push (msg ''oc_1'' ''m1''), Trigger ''oc_1'' ''m1'']" "[15000]"]
  have "calls (run (dispose (run (createChatBatcher 0 0)
      [OnFlush alwaysResolves, Push (msg ''oc_1'' ''m1''), Trigger ''oc_1'' ''m1'']))
        (map Advance [15000])) = []"
    by simp
  moreover have "flushes (run (createChatBatcher 0 0)
      [OnFlush alwaysResolves, Push (msg ''oc_1'' ''m1''), Trigger ''oc_1'' ''m1'', Advance 15000]) =
     [\<lparr>ev_chatId = ''oc_1'', ev_messages = [msg ''oc_1'' ''m1''], triggeredBy = ''m1'',
       triggeredAt = 500\<rparr>]"
    by (simp add: batcher_defs msg_def)
  ultimately show ?thesis by blast
qed

end
